theory Spec2Isabelle
  imports Complex_Main "HOL-Library.Char_ord" "HOL-Library.List_Lexorder"
    "HOL-Library.Product_Lexorder"
begin

section \<open>Python strings\<close>

text \<open>
  A Python \<^verbatim>\<open>str\<close> is modelled as a \<^typ>\<open>string\<close>: a list of characters, each one
  standing for the code point of the same number (U+0000 to U+00FF).  The character
  classes below are the ones CPython uses for these code points: \<^verbatim>\<open>str.isspace\<close>
  (also the regular expression class \<^verbatim>\<open>\s\<close>), the line boundaries of
  \<^verbatim>\<open>str.splitlines\<close>, the class \<^verbatim>\<open>\d\<close>, the class \<^verbatim>\<open>\w\<close> and \<^verbatim>\<open>str.lower\<close>.
\<close>

definition cp :: "char \<Rightarrow> nat" where
  "cp c = of_char c"

definition is_space :: "char \<Rightarrow> bool" where
  "is_space c \<longleftrightarrow> (9 \<le> cp c \<and> cp c \<le> 13) \<or> (28 \<le> cp c \<and> cp c \<le> 32) \<or> cp c = 133 \<or> cp c = 160"

definition is_linebreak :: "char \<Rightarrow> bool" where
  "is_linebreak c \<longleftrightarrow> (10 \<le> cp c \<and> cp c \<le> 13) \<or> (28 \<le> cp c \<and> cp c \<le> 30) \<or> cp c = 133"

definition is_digit :: "char \<Rightarrow> bool" where
  "is_digit c \<longleftrightarrow> 48 \<le> cp c \<and> cp c \<le> 57"

definition is_ascii_alpha :: "char \<Rightarrow> bool" where
  "is_ascii_alpha c \<longleftrightarrow> (65 \<le> cp c \<and> cp c \<le> 90) \<or> (97 \<le> cp c \<and> cp c \<le> 122)"

definition is_word :: "char \<Rightarrow> bool" where
  "is_word c \<longleftrightarrow> is_digit c \<or> is_ascii_alpha c \<or> c = CHR ''_''
     \<or> cp c \<in> {170, 178, 179, 181, 185, 186, 188, 189, 190}
     \<or> (192 \<le> cp c \<and> cp c \<noteq> 215 \<and> cp c \<noteq> 247)"

definition lower_char :: "char \<Rightarrow> char" where
  "lower_char c =
     (if (65 \<le> cp c \<and> cp c \<le> 90) \<or> (192 \<le> cp c \<and> cp c \<le> 222 \<and> cp c \<noteq> 215)
      then char_of (cp c + 32) else c)"

definition lower :: "string \<Rightarrow> string" where
  "lower s = map lower_char s"

definition startswith :: "string \<Rightarrow> string \<Rightarrow> bool" where
  "startswith s p \<longleftrightarrow> take (length p) s = p"

definition strip :: "string \<Rightarrow> string" where
  "strip s = rev (dropWhile is_space (rev (dropWhile is_space s)))"

text \<open>
  \<^verbatim>\<open>str.splitlines()\<close>: the text is cut at every line boundary, the boundary is dropped,
  a carriage return directly followed by a line feed is one boundary, and a text that
  ends with a boundary has no empty last line.
\<close>

fun splitlines :: "string \<Rightarrow> string list" where
  "splitlines [] = []"
| "splitlines (c # cs) =
     (if is_linebreak c
      then [] # splitlines (if c = CHR 0x0D \<and> startswith cs [CHR 0x0A] then tl cs else cs)
      else (case splitlines cs of [] \<Rightarrow> [[c]] | l # ls \<Rightarrow> (c # l) # ls))"

text \<open>\<^verbatim>\<open>sep.join(xs)\<close>.\<close>

fun join :: "string \<Rightarrow> string list \<Rightarrow> string" where
  "join sep [] = []"
| "join sep [x] = x"
| "join sep (x # y # ys) = x @ sep @ join sep (y # ys)"

section \<open>Errors and integers\<close>

datatype py_error = ValueError | OSError

definition digit_val :: "char \<Rightarrow> int" where
  "digit_val c = int (cp c) - 48"

definition int_of_digits :: "string \<Rightarrow> int" where
  "int_of_digits ds = foldl (\<lambda>acc c. 10 * acc + digit_val c) 0 ds"

text \<open>
  The digits of \<^verbatim>\<open>int(s)\<close> may be grouped by single underscores: every group between
  underscores is a non-empty run of digits.
\<close>

fun int_groups :: "string \<Rightarrow> string \<Rightarrow> string option" where
  "int_groups cur [] = (if cur = [] then None else Some cur)"
| "int_groups cur (c # cs) =
     (if is_digit c then
        (case int_groups (cur @ [c]) cs of None \<Rightarrow> None | Some r \<Rightarrow> Some r)
      else if c = CHR ''_'' \<and> cur \<noteq> [] then
        (case int_groups [] cs of None \<Rightarrow> None | Some r \<Rightarrow> Some (cur @ r))
      else None)"

definition is_int_space :: "char \<Rightarrow> bool" where
  "is_int_space c \<longleftrightarrow> (9 \<le> cp c \<and> cp c \<le> 13) \<or> cp c = 32 \<or> cp c = 133 \<or> cp c = 160"

text \<open>
  \<^verbatim>\<open>int(s)\<close> in base ten: surrounding white space is dropped, one sign is allowed, and
  anything that is not a decimal literal raises \<^verbatim>\<open>ValueError\<close>.  So does a literal of
  more than 4300 digits: this is the interpreter's limit on the conversion of a decimal
  string (\<^verbatim>\<open>sys.get_int_max_str_digits()\<close>, 4300 unless the process changes it, which the
  program does not).  Leading zeros count as digits, underscores and the sign do not.
\<close>

definition max_str_digits :: nat where
  "max_str_digits = 4300"

definition py_int :: "string \<Rightarrow> py_error + int" where
  "py_int s =
     (let t = rev (dropWhile is_int_space (rev (dropWhile is_int_space s)));
          neg = startswith t ''-'';
          body = (if startswith t ''-'' \<or> startswith t ''+'' then tl t else t)
      in case int_groups [] body of
           None \<Rightarrow> Inl ValueError
         | Some ds \<Rightarrow>
             if max_str_digits < length ds then Inl ValueError
             else Inr (if neg then - int_of_digits ds else int_of_digits ds))"

section \<open>The hunk parser\<close>

text \<open>
  An operation is the dictionary \<^verbatim>\<open>{"op": ..., "text": ...}\<close> and a hunk the dictionary
  built at the end of the inner loop of \<^verbatim>\<open>parse_unified_diff\<close>.
\<close>

record diff_op =
  op :: string
  optext :: string

record hunk =
  old_start :: int
  old_len :: int
  new_start :: int
  new_len :: int
  ops :: "diff_op list"
  old_snippet :: string
  new_snippet :: string

text \<open>
  \<^verbatim>\<open>re.match(r"@@ -(\d+),?(\d*) \+(\d+),?(\d*) @@", line)\<close>, returning the four groups.
  Every repetition in the pattern is followed by a character outside its class, so the
  greedy choice is the only one that can succeed and no backtracking is needed.
\<close>

definition match_hunk_header :: "string \<Rightarrow> (string \<times> string \<times> string \<times> string) option" where
  "match_hunk_header line =
     (if \<not> startswith line ''@@ -'' then None else
      let r0 = drop 4 line;
          g1 = takeWhile is_digit r0;
          r1 = dropWhile is_digit r0;
          r2 = (if startswith r1 '','' then tl r1 else r1);
          g2 = takeWhile is_digit r2;
          r3 = dropWhile is_digit r2
      in if g1 = [] \<or> \<not> startswith r3 '' +'' then None else
      let r4 = drop 2 r3;
          g3 = takeWhile is_digit r4;
          r5 = dropWhile is_digit r4;
          r6 = (if startswith r5 '','' then tl r5 else r5);
          g4 = takeWhile is_digit r6;
          r7 = dropWhile is_digit r6
      in if g3 = [] \<or> \<not> startswith r7 '' @@'' then None
         else Some (g1, g2, g3, g4))"

text \<open>
  The inner \<^verbatim>\<open>while\<close> loop: it runs over the lines up to the next line that starts
  with \<^verbatim>\<open>"@@ "\<close> (or the end), and returns the operations, both buffers and the lines
  that are left.  The \<^verbatim>\<open>break\<close> at the end of its body tests the loop condition again.
\<close>

fun scan_body :: "string list \<Rightarrow> diff_op list \<Rightarrow> string list \<Rightarrow> string list \<Rightarrow>
    diff_op list \<times> string list \<times> string list \<times> string list" where
  "scan_body [] os old_buf new_buf = (os, old_buf, new_buf, [])"
| "scan_body (l # ls) os old_buf new_buf =
     (if startswith l ''@@ '' then (os, old_buf, new_buf, l # ls)
      else if startswith l ''-'' then
        scan_body ls (os @ [\<lparr>op = ''del'', optext = tl l\<rparr>]) (old_buf @ [tl l]) new_buf
      else if startswith l ''+'' then
        scan_body ls (os @ [\<lparr>op = ''add'', optext = tl l\<rparr>]) old_buf (new_buf @ [tl l])
      else if startswith l '' '' then
        scan_body ls (os @ [\<lparr>op = ''ctx'', optext = tl l\<rparr>]) (old_buf @ [tl l]) (new_buf @ [tl l])
      else if startswith l (CHR 0x5C # '' No newline at end of file'') then
        scan_body ls os old_buf new_buf
      else scan_body ls os old_buf new_buf)"

lemma scan_body_rest_length:
  "length (snd (snd (snd (scan_body ls os ob nb)))) \<le> length ls"
  by (induction ls arbitrary: os ob nb) (simp_all add: le_SucI)

text \<open>The outer loop, over the lines from the cursor on.\<close>

function parse_lines :: "string list \<Rightarrow> py_error + hunk list" where
  "parse_lines [] = Inr []"
| "parse_lines (line # rest) =
     (if startswith line ''@@ '' then
        (case match_hunk_header line of
           None \<Rightarrow> parse_lines rest
         | Some (g1, g2, g3, g4) \<Rightarrow>
             (case py_int g1 of Inl e \<Rightarrow> Inl e | Inr os \<Rightarrow>
             (case py_int (if g2 = [] then ''1'' else g2) of Inl e \<Rightarrow> Inl e | Inr ol \<Rightarrow>
             (case py_int g3 of Inl e \<Rightarrow> Inl e | Inr ns \<Rightarrow>
             (case py_int (if g4 = [] then ''1'' else g4) of Inl e \<Rightarrow> Inl e | Inr nl \<Rightarrow>
             (case scan_body rest [] [] [] of (os', old_buf, new_buf, rest') \<Rightarrow>
             (case parse_lines rest' of Inl e \<Rightarrow> Inl e | Inr hs \<Rightarrow>
                Inr (\<lparr>old_start = os, old_len = ol, new_start = ns, new_len = nl,
                      ops = os', old_snippet = join [CHR 0x0A] old_buf,
                      new_snippet = join [CHR 0x0A] new_buf\<rparr> # hs))))))))
      else parse_lines rest)"
  by pat_completeness auto
termination
proof (relation "measure length")
  fix line :: string and rest x2 x y xa ya xb yb b ba bb bc xc yc xd yd xe ye
  assume "(xc, yc) = scan_body rest [] [] []" "(xd, yd) = yc" "(xe, ye) = yd"
  then have "ye = snd (snd (snd (scan_body rest [] [] [])))"
    by (metis snd_conv)
  then show "(ye, line # rest) \<in> measure length"
    using scan_body_rest_length [of rest "[]" "[]" "[]"] by simp
qed auto

definition parse_unified_diff :: "string \<Rightarrow> py_error + hunk list" where
  "parse_unified_diff unified = parse_lines (splitlines unified)"

section \<open>Properties of the hunk parser\<close>


fun str_of_nat :: "nat \<Rightarrow> string" where
  "str_of_nat n = (if n < 10 then [char_of (48 + n)] else str_of_nat (n div 10) @ [char_of (48 + n mod 10)])"

declare str_of_nat.simps [simp del]

definition line_ops :: "string \<Rightarrow> diff_op list" where
  "line_ops l =
     (if startswith l ''-'' then [\<lparr>op = ''del'', optext = tl l\<rparr>]
      else if startswith l ''+'' then [\<lparr>op = ''add'', optext = tl l\<rparr>]
      else if startswith l '' '' then [\<lparr>op = ''ctx'', optext = tl l\<rparr>]
      else [])"

definition line_old :: "string \<Rightarrow> string list" where
  "line_old l = (if startswith l ''-'' \<or> startswith l '' '' then [tl l] else [])"

definition line_new :: "string \<Rightarrow> string list" where
  "line_new l = (if startswith l ''+'' \<or> startswith l '' '' then [tl l] else [])"

definition in_body :: "string \<Rightarrow> bool" where
  "in_body l \<longleftrightarrow> \<not> startswith l ''@@ ''"

lemma startswith_Cons:
  "startswith s (c # p) \<longleftrightarrow> (case s of [] \<Rightarrow> False | d # t \<Rightarrow> d = c \<and> startswith t p)"
  by (cases s) (auto simp: startswith_def)

lemma startswith_Nil [simp]: "startswith s []"
  by (simp add: startswith_def)

lemma startswith_Cons_Cons [simp]: "startswith (c # s) (d # p) \<longleftrightarrow> c = d \<and> startswith s p"
  by (auto simp: startswith_def)

lemma startswith_Nil_Cons [simp]: "\<not> startswith [] (d # p)"
  by (simp add: startswith_def)

lemma startswith_append [simp]: "startswith (p @ s) p"
  by (simp add: startswith_def)

lemma startswith_append_Cons: "startswith ((c # p) @ s) (d # q) \<longleftrightarrow> c = d \<and> startswith (p @ s) q"
  by (auto simp: startswith_def)

lemma scan_body_eq:
  "scan_body ls os ob nb =
     (os @ concat (map line_ops (takeWhile in_body ls)),
      ob @ concat (map line_old (takeWhile in_body ls)),
      nb @ concat (map line_new (takeWhile in_body ls)),
      dropWhile in_body ls)"
proof (induction ls arbitrary: os ob nb)
  case Nil
  show ?case by simp
next
  case (Cons l ls)
  show ?case
  proof (cases "in_body l")
    case False
    then show ?thesis by (simp add: in_body_def)
  next
    case True
    then have nh: "\<not> startswith l ''@@ ''" by (simp add: in_body_def)
    show ?thesis
      using True nh
      by (cases l) (auto simp: Cons.IH line_ops_def line_old_def line_new_def startswith_Cons split: list.splits)
  qed
qed

lemma digit_cp: "is_digit c \<Longrightarrow> \<not> is_int_space c \<and> c \<noteq> CHR ''-'' \<and> c \<noteq> CHR ''+'' \<and> c \<noteq> CHR ''_'' \<and> c \<noteq> CHR '','' \<and> c \<noteq> CHR '' ''"
  by (auto simp: is_digit_def is_int_space_def cp_def)

lemma int_groups_digits:
  "\<forall>c\<in>set ds. is_digit c \<Longrightarrow> cur @ ds \<noteq> [] \<Longrightarrow> int_groups cur ds = Some (cur @ ds)"
  by (induction ds arbitrary: cur) auto

lemma py_int_digits:
  assumes "ds \<noteq> []" "\<forall>c\<in>set ds. is_digit c"
  shows "py_int ds = (if max_str_digits < length ds then Inl ValueError else Inr (int_of_digits ds))"
proof -
  obtain c cs where ds: "ds = c # cs" using assms(1) by (cases ds) auto
  obtain ys y where ds': "ds = ys @ [y]" using assms(1) by (cases ds rule: rev_cases) auto
  have c: "is_digit c" using assms(2) ds by simp
  have y: "is_digit y" using assms(2) ds' by simp
  have 1: "dropWhile is_int_space ds = ds" using c ds digit_cp by simp
  have 2: "dropWhile is_int_space (rev ds) = rev ds" using y digit_cp by (simp add: ds')
  have 3: "\<not> startswith ds ''-''" "\<not> startswith ds ''+''"
    using c ds digit_cp by (auto simp: startswith_Cons)
  show ?thesis
    using int_groups_digits [of ds "[]"] assms
    by (simp add: py_int_def 1 2 3 Let_def)
qed

lemma match_hunk_header_groups:
  assumes "match_hunk_header l = Some (g1, g2, g3, g4)"
  shows "g1 \<noteq> [] \<and> g3 \<noteq> [] \<and> (\<forall>c\<in>set g1. is_digit c) \<and> (\<forall>c\<in>set g2. is_digit c)
       \<and> (\<forall>c\<in>set g3. is_digit c) \<and> (\<forall>c\<in>set g4. is_digit c)"
  using assms unfolding match_hunk_header_def Let_def
  by (auto split: if_splits dest: set_takeWhileD)

lemma one_digits: "py_int ''1'' = Inr 1"
  by (simp add: py_int_def is_int_space_def cp_def is_digit_def int_of_digits_def digit_val_def
      startswith_Cons max_str_digits_def)

text \<open>
  A header whose numbers \<^verbatim>\<open>int\<close> refuses: one of the four groups has more digits than the
  limit.  (An empty length group stands for \<^verbatim>\<open>"1"\<close>.)
\<close>

definition over_limit :: "string \<Rightarrow> string \<Rightarrow> string \<Rightarrow> string \<Rightarrow> bool" where
  "over_limit g1 g2 g3 g4 \<longleftrightarrow>
     max_str_digits < length g1 \<or> max_str_digits < length g2
     \<or> max_str_digits < length g3 \<or> max_str_digits < length g4"

lemma parse_lines_Cons:
  "parse_lines (line # rest) =
     (if startswith line ''@@ '' then
        (case match_hunk_header line of
           None \<Rightarrow> parse_lines rest
         | Some (g1, g2, g3, g4) \<Rightarrow>
             if over_limit g1 g2 g3 g4 then Inl ValueError else
             (case parse_lines (dropWhile in_body rest) of
                Inl e \<Rightarrow> Inl e
              | Inr hs \<Rightarrow>
                  Inr (\<lparr>old_start = int_of_digits g1,
                        old_len = (if g2 = [] then 1 else int_of_digits g2),
                        new_start = int_of_digits g3,
                        new_len = (if g4 = [] then 1 else int_of_digits g4),
                        ops = concat (map line_ops (takeWhile in_body rest)),
                        old_snippet = join [CHR 0x0A] (concat (map line_old (takeWhile in_body rest))),
                        new_snippet = join [CHR 0x0A] (concat (map line_new (takeWhile in_body rest)))\<rparr> # hs)))
      else parse_lines rest)"
proof (cases "match_hunk_header line")
  case None
  then show ?thesis by (simp)
next
  case (Some g)
  obtain g1 g2 g3 g4 where g: "g = (g1, g2, g3, g4)" by (cases g) auto
  note grp = match_hunk_header_groups [OF Some [unfolded g]]
  have i1: "py_int g1 = (if max_str_digits < length g1 then Inl ValueError else Inr (int_of_digits g1))"
    using grp py_int_digits by blast
  have i3: "py_int g3 = (if max_str_digits < length g3 then Inl ValueError else Inr (int_of_digits g3))"
    using grp py_int_digits by blast
  have i2: "py_int (if g2 = [] then ''1'' else g2) =
      (if max_str_digits < length g2 then Inl ValueError
       else Inr (if g2 = [] then 1 else int_of_digits g2))"
    using grp py_int_digits [of g2] one_digits by (auto simp: max_str_digits_def)
  have i4: "py_int (if g4 = [] then ''1'' else g4) =
      (if max_str_digits < length g4 then Inl ValueError
       else Inr (if g4 = [] then 1 else int_of_digits g4))"
    using grp py_int_digits [of g4] one_digits by (auto simp: max_str_digits_def)
  show ?thesis
    by (simp add: parse_lines.simps(2) Some g i1 i2 i3 i4 scan_body_eq over_limit_def)
qed

declare parse_lines.simps(2) [simp del]

text \<open>
  The parser raises exactly when it meets a header that \<^verbatim>\<open>int\<close> refuses; every line that
  starts with \<^verbatim>\<open>"@@ "\<close> is tried as a header, in a body or outside.
\<close>

definition raising_header :: "string \<Rightarrow> bool" where
  "raising_header l \<longleftrightarrow>
     (case match_hunk_header l of None \<Rightarrow> False | Some (g1, g2, g3, g4) \<Rightarrow> over_limit g1 g2 g3 g4)"

lemma match_needs_prefix: "\<not> startswith l ''@@ '' \<Longrightarrow> match_hunk_header l = None"
proof -
  assume "\<not> startswith l ''@@ ''"
  then have "\<not> startswith l ''@@ -''"
    by (auto simp: startswith_Cons split: list.splits)
  then show ?thesis by (simp add: match_hunk_header_def)
qed

lemma raising_header_not_body: "raising_header l \<Longrightarrow> \<not> in_body l"
proof
  assume "raising_header l" "in_body l"
  then show False using match_needs_prefix [of l] by (simp add: raising_header_def in_body_def)
qed

lemma parse_lines_cases:
  "if \<exists>l\<in>set ls. raising_header l then parse_lines ls = Inl ValueError
   else \<exists>hs. parse_lines ls = Inr hs"
proof (induction ls rule: length_induct)
  case (1 ls)
  show ?case
  proof (cases ls)
    case Nil
    then show ?thesis by simp
  next
    case (Cons line rest)
    have a: "if \<exists>l\<in>set rest. raising_header l then parse_lines rest = Inl ValueError
        else \<exists>hs. parse_lines rest = Inr hs"
      using 1 Cons by simp
    have "length (dropWhile in_body rest) \<le> length rest" by (rule length_dropWhile_le)
    then have b: "if \<exists>l\<in>set (dropWhile in_body rest). raising_header l
        then parse_lines (dropWhile in_body rest) = Inl ValueError
        else \<exists>hs. parse_lines (dropWhile in_body rest) = Inr hs"
      using 1 Cons by simp
    have "set rest = set (takeWhile in_body rest) \<union> set (dropWhile in_body rest)"
      by (metis set_append takeWhile_dropWhile_id)
    moreover have "\<forall>l\<in>set (takeWhile in_body rest). \<not> raising_header l"
      using raising_header_not_body by (metis set_takeWhileD)
    ultimately have d: "(\<exists>l\<in>set (dropWhile in_body rest). raising_header l) \<longleftrightarrow>
        (\<exists>l\<in>set rest. raising_header l)" by blast
    show ?thesis
    proof (cases "match_hunk_header line")
      case None
      then have "\<not> raising_header line" by (simp add: raising_header_def)
      moreover have "parse_lines (line # rest) = parse_lines rest"
        by (simp add: parse_lines_Cons None)
      ultimately show ?thesis using a Cons by simp
    next
      case (Some g)
      obtain g1 g2 g3 g4 where g: "g = (g1, g2, g3, g4)" by (cases g) auto
      have sw: "startswith line ''@@ ''" using Some match_needs_prefix by fastforce
      have r: "raising_header line \<longleftrightarrow> over_limit g1 g2 g3 g4"
        by (simp add: raising_header_def Some g)
      show ?thesis
      proof (cases "over_limit g1 g2 g3 g4")
        case True
        then show ?thesis using r by (simp add: Cons parse_lines_Cons sw Some g)
      next
        case False
        then show ?thesis
          using r b d by (auto simp: Cons parse_lines_Cons sw Some g)
      qed
    qed
  qed
qed

lemma parse_lines_returns:
  "\<forall>l\<in>set ls. \<not> raising_header l \<Longrightarrow> \<exists>hs. parse_lines ls = Inr hs"
  using parse_lines_cases [of ls] by (simp split: if_splits)

lemma parse_lines_raises:
  "parse_lines ls = Inl e \<longleftrightarrow> e = ValueError \<and> (\<exists>l\<in>set ls. raising_header l)"
  using parse_lines_cases [of ls] by (auto split: if_splits)

definition header_line :: "nat \<Rightarrow> nat option \<Rightarrow> nat \<Rightarrow> nat option \<Rightarrow> string" where
  "header_line a lb c ld =
     ''@@ -'' @ str_of_nat a @ (case lb of None \<Rightarrow> [] | Some b \<Rightarrow> '','' @ str_of_nat b)
     @ '' +'' @ str_of_nat c @ (case ld of None \<Rightarrow> [] | Some d \<Rightarrow> '','' @ str_of_nat d) @ '' @@''"

lemma is_digit_char_of: "(d::nat) < 10 \<Longrightarrow> is_digit (char_of (48 + d))"
  by (simp add: is_digit_def cp_def)

lemma digit_val_char_of: "(d::nat) < 10 \<Longrightarrow> digit_val (char_of (48 + d)) = int d"
  by (simp add: digit_val_def cp_def)

lemma str_of_nat_digits: "\<forall>c\<in>set (str_of_nat n). is_digit c"
proof (induction n rule: str_of_nat.induct)
  case (1 n)
  show ?case
  proof (cases "n < 10")
    case True
    then show ?thesis by (subst str_of_nat.simps) (simp add: is_digit_char_of)
  next
    case False
    then show ?thesis using 1 by (subst str_of_nat.simps) (simp add: is_digit_char_of)
  qed
qed

lemma str_of_nat_nonempty: "str_of_nat n \<noteq> []"
  by (subst str_of_nat.simps) simp

lemma int_of_digits_snoc: "int_of_digits (ds @ [c]) = 10 * int_of_digits ds + digit_val c"
  by (simp add: int_of_digits_def)

lemma int_of_digits_str_of_nat: "int_of_digits (str_of_nat n) = int n"
proof (induction n rule: str_of_nat.induct)
  case (1 n)
  show ?case
  proof (cases "n < 10")
    case True
    then show ?thesis
      by (subst str_of_nat.simps) (simp add: int_of_digits_def digit_val_char_of)
  next
    case False
    have "int n = 10 * int (n div 10) + int (n mod 10)"
      by (metis mult_div_mod_eq of_nat_add of_nat_mult of_nat_numeral)
    with False show ?thesis using 1
      by (subst str_of_nat.simps) (simp add: int_of_digits_snoc digit_val_char_of)
  qed
qed

lemma takeWhile_digits:
  "\<forall>c\<in>set ds. is_digit c \<Longrightarrow> \<not> is_digit x \<Longrightarrow> takeWhile is_digit (ds @ x # r) = ds"
  by (induction ds) auto

lemma dropWhile_digits:
  "\<forall>c\<in>set ds. is_digit c \<Longrightarrow> \<not> is_digit x \<Longrightarrow> dropWhile is_digit (ds @ x # r) = x # r"
  by (induction ds) auto

lemma not_digit_sep: "\<not> is_digit CHR '',''" "\<not> is_digit CHR '' ''" "\<not> is_digit CHR ''@''"
  "\<not> is_digit CHR ''+''" "\<not> is_digit CHR ''-''"
  by (simp_all add: is_digit_def cp_def)

lemma match_header_line:
  "match_hunk_header (header_line a lb c ld @ t) =
     Some (str_of_nat a, (case lb of None \<Rightarrow> [] | Some b \<Rightarrow> str_of_nat b),
           str_of_nat c, (case ld of None \<Rightarrow> [] | Some d \<Rightarrow> str_of_nat d))"
  unfolding match_hunk_header_def header_line_def
  by (cases lb; cases ld)
     (simp_all add: Let_def takeWhile_digits dropWhile_digits str_of_nat_digits
        str_of_nat_nonempty not_digit_sep)

lemma startswith_header_line: "startswith (header_line a lb c ld @ t) ''@@ ''"
  by (simp add: header_line_def)

lemma parse_lines_skip:
  assumes "in_body l" "line_ops l = []" "line_old l = []" "line_new l = []"
  shows "parse_lines (xs @ l # ys) = parse_lines (xs @ ys)"
proof (induction xs rule: length_induct)
  case (1 xs)
  show ?case
  proof (cases xs)
    case Nil
    then show ?thesis using assms(1) by (simp add: parse_lines_Cons in_body_def)
  next
    case (Cons line rest)
    have a: "parse_lines (rest @ l # ys) = parse_lines (rest @ ys)" using 1 Cons by simp
    have t: "takeWhile in_body (rest @ l # ys) =
        (if \<forall>x\<in>set rest. in_body x then rest @ l # takeWhile in_body ys else takeWhile in_body rest)"
      using assms(1) by (simp add: takeWhile_append)
    have t': "takeWhile in_body (rest @ ys) =
        (if \<forall>x\<in>set rest. in_body x then rest @ takeWhile in_body ys else takeWhile in_body rest)"
      by (simp add: takeWhile_append)
    have d: "dropWhile in_body (rest @ l # ys) =
        (if \<forall>x\<in>set rest. in_body x then dropWhile in_body ys else dropWhile in_body rest @ l # ys)"
      using assms(1) by (simp add: dropWhile_append)
    have d': "dropWhile in_body (rest @ ys) =
        (if \<forall>x\<in>set rest. in_body x then dropWhile in_body ys else dropWhile in_body rest @ ys)"
      by (simp add: dropWhile_append)
    have "length (dropWhile in_body rest) \<le> length rest" by (rule length_dropWhile_le)
    then have b: "parse_lines (dropWhile in_body rest @ l # ys) = parse_lines (dropWhile in_body rest @ ys)"
      using 1 Cons by simp
    have e: "parse_lines (dropWhile in_body (rest @ l # ys)) = parse_lines (dropWhile in_body (rest @ ys))"
      by (simp add: d d' b)
    have f: "concat (map line_ops (takeWhile in_body (rest @ l # ys))) = concat (map line_ops (takeWhile in_body (rest @ ys)))"
      "concat (map line_old (takeWhile in_body (rest @ l # ys))) = concat (map line_old (takeWhile in_body (rest @ ys)))"
      "concat (map line_new (takeWhile in_body (rest @ l # ys))) = concat (map line_new (takeWhile in_body (rest @ ys)))"
      by (simp_all add: t t' assms)
    show ?thesis
      unfolding Cons append_Cons parse_lines_Cons a e f ..
  qed
qed

lemma skip_line:
  assumes "\<not> startswith l ''@@ ''" "\<not> startswith l ''-''" "\<not> startswith l ''+''" "\<not> startswith l '' ''"
  shows "in_body l" "line_ops l = []" "line_old l = []" "line_new l = []"
  using assms by (simp_all add: in_body_def line_ops_def line_old_def line_new_def)

lemma parse_lines_ops:
  "parse_lines ls = Inr hs \<Longrightarrow> h \<in> set hs \<Longrightarrow> x \<in> set (ops h) \<Longrightarrow>
     op x = ''del'' \<or> op x = ''add'' \<or> op x = ''ctx''"
proof (induction ls arbitrary: hs rule: length_induct)
  case (1 ls)
  show ?case
  proof (cases ls)
    case Nil
    with 1 show ?thesis by simp
  next
    case (Cons line rest)
    have le: "length (dropWhile in_body rest) \<le> length rest" by (rule length_dropWhile_le)
    have k: "y \<in> set (concat (map line_ops zs)) \<Longrightarrow> op y = ''del'' \<or> op y = ''add'' \<or> op y = ''ctx''" for y zs
      by (auto simp: line_ops_def split: if_splits)
    show ?thesis
    proof (cases "startswith line ''@@ '' \<and> match_hunk_header line \<noteq> None")
      case False
      then have "parse_lines ls = parse_lines rest"
        unfolding Cons parse_lines_Cons
        by (cases "match_hunk_header line") auto
      then have "parse_lines rest = Inr hs" using "1.prems"(1) by simp
      moreover have "length rest < length ls" using Cons by simp
      ultimately show ?thesis using "1.IH" "1.prems"(2,3) by blast
    next
      case True
      then obtain g1 g2 g3 g4 where g: "match_hunk_header line = Some (g1, g2, g3, g4)"
        by (metis not_Some_eq prod_cases4)
      have nl: "\<not> over_limit g1 g2 g3 g4"
        using 1(2) True unfolding Cons parse_lines_Cons g by (auto split: if_splits)
      obtain hs' where hs': "parse_lines (dropWhile in_body rest) = Inr hs'"
        using 1(2) True nl unfolding Cons parse_lines_Cons g by (auto split: sum.splits)
      have "hs = \<lparr>old_start = int_of_digits g1,
                        old_len = (if g2 = [] then 1 else int_of_digits g2),
                        new_start = int_of_digits g3,
                        new_len = (if g4 = [] then 1 else int_of_digits g4),
                        ops = concat (map line_ops (takeWhile in_body rest)),
                        old_snippet = join [CHR 0x0A] (concat (map line_old (takeWhile in_body rest))),
                        new_snippet = join [CHR 0x0A] (concat (map line_new (takeWhile in_body rest)))\<rparr> # hs'"
        using 1(2) True nl unfolding Cons parse_lines_Cons g hs' by (simp)
      then consider "ops h = concat (map line_ops (takeWhile in_body rest))" | "h \<in> set hs'"
        using 1(3) by auto
      then show ?thesis
      proof cases
        case 1
        then show ?thesis using k "1.prems"(3) by simp
      next
        case 2
        have "length (dropWhile in_body rest) < length ls" using le Cons by simp
        then show ?thesis using "1.IH" hs' 2 "1.prems"(3) by blast
      qed
    qed
  qed
qed



subsection \<open>Lines and texts\<close>

text \<open>
  A line is clean when it has no line boundary; \<open>chomp\<close> removes one final newline.  When
  lines are joined by newlines and the text is split again, a clean line comes back as it
  was, and a line that ended with a newline leaves an empty line behind it, which the
  parser skips.
\<close>

definition clean :: "string \<Rightarrow> bool" where
  "clean p \<longleftrightarrow> (\<forall>c\<in>set p. \<not> is_linebreak c)"

definition chomp :: "string \<Rightarrow> string" where
  "chomp x = (if x \<noteq> [] \<and> last x = CHR 0x0A then butlast x else x)"

lemma is_linebreak_LF: "is_linebreak (CHR 0x0A)"
  by (simp add: is_linebreak_def cp_def)

lemma splitlines_clean_LF:
  "clean p \<Longrightarrow> splitlines (p @ CHR 0x0A # rest) = p # splitlines rest"
proof (induction p)
  case Nil
  show ?case by (simp add: is_linebreak_LF)
next
  case (Cons c p)
  then have "\<not> is_linebreak c" "clean p" by (auto simp: clean_def)
  then show ?case using Cons.IH by simp
qed

lemma splitlines_clean:
  "clean p \<Longrightarrow> p \<noteq> [] \<Longrightarrow> splitlines p = [p]"
proof (induction p)
  case Nil
  then show ?case by simp
next
  case (Cons c p)
  then have c: "\<not> is_linebreak c" "clean p" by (auto simp: clean_def)
  show ?case
  proof (cases "p = []")
    case True
    then show ?thesis using c by simp
  next
    case False
    then show ?thesis using Cons.IH c by simp
  qed
qed

lemma clean_last: "clean p \<Longrightarrow> p \<noteq> [] \<Longrightarrow> last p \<noteq> CHR 0x0A"
  using is_linebreak_LF by (metis clean_def last_in_set)

lemma chomp_terminated [simp]: "chomp (p @ [CHR 0x0A]) = p"
  by (simp add: chomp_def)

lemma chomp_clean: "clean p \<Longrightarrow> chomp p = p"
  using clean_last by (auto simp: chomp_def)

lemma clean_append: "clean (x @ y) \<longleftrightarrow> clean x \<and> clean y"
  by (auto simp: clean_def)

lemma clean_Cons: "clean (c # y) \<longleftrightarrow> \<not> is_linebreak c \<and> clean y"
  by (auto simp: clean_def)

lemma clean_Nil: "clean []"
  by (simp add: clean_def)

definition good_line :: "string \<Rightarrow> bool" where
  "good_line x \<longleftrightarrow> (\<exists>p. clean p \<and> (x = p @ [CHR 0x0A] \<or> x = p))"

lemma splitlines_join:
  "\<forall>x\<in>set xs. good_line x \<Longrightarrow>
     filter (\<lambda>l. l \<noteq> []) (splitlines (join [CHR 0x0A] xs)) = filter (\<lambda>l. l \<noteq> []) (map chomp xs)"
proof (induction xs rule: induct_list012)
  case 1
  show ?case by simp
next
  case (2 x)
  then obtain p where p: "clean p" "x = p @ [CHR 0x0A] \<or> x = p"
    by (auto simp: good_line_def)
  from p(2) show ?case
  proof
    assume "x = p @ [CHR 0x0A]"
    then show ?thesis using splitlines_clean_LF [OF p(1), of "[]"] by simp
  next
    assume x: "x = p"
    show ?thesis
    proof (cases "p = []")
      case True
      then show ?thesis using x by (simp add: chomp_def)
    next
      case False
      then show ?thesis using x splitlines_clean [OF p(1)] chomp_clean [OF p(1)] by simp
    qed
  qed
next
  case (3 x y ys)
  from 3(3) obtain p where p: "clean p" "x = p @ [CHR 0x0A] \<or> x = p"
    by (auto simp: good_line_def)
  define rest where "rest = join [CHR 0x0A] (y # ys)"
  have IH: "filter (\<lambda>l. l \<noteq> []) (splitlines rest) = filter (\<lambda>l. l \<noteq> []) (map chomp (y # ys))"
    unfolding rest_def using 3(2) 3(3) by simp
  have j: "join [CHR 0x0A] (x # y # ys) = x @ CHR 0x0A # rest" by (simp add: rest_def)
  from p(2) show ?case
  proof
    assume x: "x = p @ [CHR 0x0A]"
    have "splitlines (x @ CHR 0x0A # rest) = p # [] # splitlines rest"
      using splitlines_clean_LF [OF p(1), of "CHR 0x0A # rest"]
        splitlines_clean_LF [of "[]" rest] by (simp add: x clean_def)
    then show ?thesis unfolding j using IH by (simp add: x)
  next
    assume x: "x = p"
    then show ?thesis unfolding j
      using splitlines_clean_LF [OF p(1), of rest] IH chomp_clean [OF p(1)] by simp
  qed
qed

lemma parse_lines_filter_aux:
  "parse_lines (pre @ ls) = parse_lines (pre @ filter (\<lambda>l. l \<noteq> []) ls)"
proof (induction ls arbitrary: pre)
  case Nil
  show ?case by simp
next
  case (Cons l ls)
  show ?case
  proof (cases "l = []")
    case True
    have "parse_lines (pre @ [] # ls) = parse_lines (pre @ ls)"
      by (rule parse_lines_skip) (simp_all add: in_body_def line_ops_def line_old_def line_new_def)
    then show ?thesis using Cons.IH [of pre] True by simp
  next
    case False
    then show ?thesis using Cons.IH [of "pre @ [l]"] by simp
  qed
qed

lemma parse_lines_filter:
  "parse_lines ls = parse_lines (filter (\<lambda>l. l \<noteq> []) ls)"
  using parse_lines_filter_aux [of "[]" ls] by simp

lemma parse_joined:
  assumes "\<forall>x\<in>set xs. good_line x"
  shows "parse_unified_diff (join [CHR 0x0A] xs) = parse_lines (filter (\<lambda>l. l \<noteq> []) (map chomp xs))"
  unfolding parse_unified_diff_def
  using parse_lines_filter [of "splitlines (join [CHR 0x0A] xs)"] splitlines_join [OF assms] by simp

lemma parse_joined_clean:
  assumes "\<forall>x\<in>set xs. clean x"
  shows "parse_unified_diff (join [CHR 0x0A] xs) = parse_lines xs"
proof -
  have "\<forall>x\<in>set xs. good_line x" using assms by (auto simp: good_line_def)
  moreover have "map chomp xs = xs" using assms chomp_clean by (simp add: map_idI)
  ultimately show ?thesis using parse_joined [of xs] parse_lines_filter [of xs] by simp
qed

subsection \<open>Headers\<close>

text \<open>
  A header line written from its four groups of digits; a length may be missing, with or
  without its comma.
\<close>

definition header_text :: "string \<Rightarrow> string option \<Rightarrow> string \<Rightarrow> string option \<Rightarrow> string" where
  "header_text g1 g2 g3 g4 =
     ''@@ -'' @ g1 @ (case g2 of None \<Rightarrow> [] | Some b \<Rightarrow> '','' @ b)
     @ '' +'' @ g3 @ (case g4 of None \<Rightarrow> [] | Some d \<Rightarrow> '','' @ d) @ '' @@''"

definition group_of :: "string option \<Rightarrow> string" where
  "group_of g = (case g of None \<Rightarrow> [] | Some b \<Rightarrow> b)"

lemma match_header_text:
  assumes "g1 \<noteq> []" "\<forall>c\<in>set g1. is_digit c" "g3 \<noteq> []" "\<forall>c\<in>set g3. is_digit c"
    and "\<forall>c\<in>set (group_of g2). is_digit c" "\<forall>c\<in>set (group_of g4). is_digit c"
  shows "match_hunk_header (header_text g1 g2 g3 g4 @ t) = Some (g1, group_of g2, g3, group_of g4)"
  using assms unfolding match_hunk_header_def header_text_def group_of_def
  by (cases g2; cases g4)
     (simp_all add: Let_def takeWhile_digits dropWhile_digits not_digit_sep)

lemma startswith_header_text: "startswith (header_text g1 g2 g3 g4 @ t) ''@@ ''"
  by (simp add: header_text_def)

lemma digit_not_linebreak: "is_digit c \<Longrightarrow> \<not> is_linebreak c"
  by (auto simp: is_digit_def is_linebreak_def)

lemma marker_chars: "\<not> is_linebreak CHR '' ''" "\<not> is_linebreak CHR ''-''" "\<not> is_linebreak CHR ''+''"
  "\<not> is_linebreak CHR ''@''" "\<not> is_linebreak CHR '',''"
  by (simp_all add: is_linebreak_def cp_def)

lemma digits_clean: "\<forall>c\<in>set ds. is_digit c \<Longrightarrow> clean ds"
  using digit_not_linebreak by (auto simp: clean_def)

lemma header_text_clean:
  assumes "\<forall>c\<in>set g1. is_digit c" "\<forall>c\<in>set g3. is_digit c"
    and "\<forall>c\<in>set (group_of g2). is_digit c" "\<forall>c\<in>set (group_of g4). is_digit c"
  shows "clean (header_text g1 g2 g3 g4)"
  using assms digits_clean unfolding header_text_def group_of_def
  by (cases g2; cases g4)
     (simp_all add: clean_append clean_Cons clean_Nil marker_chars)

lemma parse_lines_skip_unmatched:
  "\<forall>x\<in>set pre. match_hunk_header x = None \<Longrightarrow> parse_lines (pre @ ls) = parse_lines ls"
  by (induction pre) (simp_all add: parse_lines_Cons)

lemma body_then_rest:
  assumes "\<forall>x\<in>set body. in_body x" "rest = [] \<or> \<not> in_body (hd rest)"
  shows "takeWhile in_body (body @ rest) = body" "dropWhile in_body (body @ rest) = rest"
proof -
  have "takeWhile in_body rest = [] \<and> dropWhile in_body rest = rest"
    using assms(2) by (cases rest) auto
  then show "takeWhile in_body (body @ rest) = body" "dropWhile in_body (body @ rest) = rest"
    using assms(1) by (simp_all add: takeWhile_append2 dropWhile_append2)
qed

lemma parse_header_block:
  assumes "g1 \<noteq> []" "\<forall>c\<in>set g1. is_digit c" "g3 \<noteq> []" "\<forall>c\<in>set g3. is_digit c"
    and "\<forall>c\<in>set (group_of g2). is_digit c" "\<forall>c\<in>set (group_of g4). is_digit c"
    and "\<forall>x\<in>set pre. match_hunk_header x = None"
    and "\<forall>x\<in>set body. in_body x" "rest = [] \<or> \<not> in_body (hd rest)"
  shows "parse_lines (pre @ (header_text g1 g2 g3 g4 @ t) # body @ rest) =
     (if over_limit g1 (group_of g2) g3 (group_of g4) then Inl ValueError
      else case parse_lines rest of
             Inl e \<Rightarrow> Inl e
           | Inr hs \<Rightarrow>
               Inr (\<lparr>old_start = int_of_digits g1,
                     old_len = (if group_of g2 = [] then 1 else int_of_digits (group_of g2)),
                     new_start = int_of_digits g3,
                     new_len = (if group_of g4 = [] then 1 else int_of_digits (group_of g4)),
                     ops = concat (map line_ops body),
                     old_snippet = join [CHR 0x0A] (concat (map line_old body)),
                     new_snippet = join [CHR 0x0A] (concat (map line_new body))\<rparr> # hs))"
  unfolding parse_lines_skip_unmatched [OF assms(7)]
    parse_lines_Cons [of "header_text g1 g2 g3 g4 @ t"]
    match_header_text [OF assms(1-6)] body_then_rest [OF assms(8,9)]
  by (simp add: startswith_header_text)

lemma length_str_of_nat: "0 < k \<Longrightarrow> n < 10 ^ k \<Longrightarrow> length (str_of_nat n) \<le> k"
proof (induction n arbitrary: k rule: str_of_nat.induct)
  case (1 n)
  show ?case
  proof (cases "n < 10")
    case True
    then show ?thesis using 1(2) by (subst str_of_nat.simps) simp
  next
    case False
    then obtain j where k: "k = Suc j" "0 < j"
      using 1(2,3) by (cases k; cases "k - 1") auto
    have "n div 10 < 10 ^ j" using 1(3) k by (simp add: less_mult_imp_div_less mult.commute)
    then have "length (str_of_nat (n div 10)) \<le> j" using 1(1) False k by simp
    then show ?thesis using False k by (subst str_of_nat.simps) simp
  qed
qed

text \<open>
  Claim C5, as amended.  \<^verbatim>\<open>parse_unified_diff\<close> raises \<^verbatim>\<open>ValueError\<close> exactly when a line of
  the text matches the header pattern with a number of more than 4300 digits, which
  \<^verbatim>\<open>int\<close> refuses; for every other text it returns a list of hunks.  In a text made of
  clean lines, the lines in front of a header that are no headers are skipped (a line that
  starts with \<^verbatim>\<open>"@@ "\<close> and does not match the pattern among them), the header opens a
  hunk with its numbers, an omitted length being 1, the lines up to the next line that
  starts with \<^verbatim>\<open>"@@ "\<close> give the operations and the snippets of the hunk, and the lines
  after them are parsed in the same way.  The empty text and a text without a header
  give no hunk.
\<close>

theorem parse_unified_diff_hunks:
  "(parse_unified_diff u = Inl ValueError \<longleftrightarrow> (\<exists>l\<in>set (splitlines u). raising_header l))
   \<and> ((\<forall>l\<in>set (splitlines u). \<not> raising_header l) \<longrightarrow> (\<exists>hs. parse_unified_diff u = Inr hs))
   \<and> (g1 \<noteq> [] \<and> (\<forall>c\<in>set g1. is_digit c) \<and> g3 \<noteq> [] \<and> (\<forall>c\<in>set g3. is_digit c)
        \<and> (\<forall>c\<in>set (group_of g2). is_digit c) \<and> (\<forall>c\<in>set (group_of g4). is_digit c)
        \<and> clean t \<and> (\<forall>x\<in>set (pre @ body @ rest). clean x)
        \<and> (\<forall>x\<in>set pre. match_hunk_header x = None)
        \<and> (\<forall>x\<in>set body. \<not> startswith x ''@@ '')
        \<and> (rest = [] \<or> startswith (hd rest) ''@@ '')
      \<longrightarrow> parse_unified_diff (join [CHR 0x0A] (pre @ (header_text g1 g2 g3 g4 @ t) # body @ rest)) =
            (if over_limit g1 (group_of g2) g3 (group_of g4) then Inl ValueError
             else case parse_unified_diff (join [CHR 0x0A] rest) of
                    Inl e \<Rightarrow> Inl e
                  | Inr hs \<Rightarrow>
                      Inr (\<lparr>old_start = int_of_digits g1,
                            old_len = (if group_of g2 = [] then 1 else int_of_digits (group_of g2)),
                            new_start = int_of_digits g3,
                            new_len = (if group_of g4 = [] then 1 else int_of_digits (group_of g4)),
                            ops = concat (map line_ops body),
                            old_snippet = join [CHR 0x0A] (concat (map line_old body)),
                            new_snippet = join [CHR 0x0A] (concat (map line_new body))\<rparr> # hs)))
   \<and> parse_unified_diff [] = Inr []
   \<and> ((\<forall>x\<in>set (splitlines u). match_hunk_header x = None) \<longrightarrow> parse_unified_diff u = Inr [])"
proof -
  have 1: "parse_unified_diff u = Inl ValueError \<longleftrightarrow> (\<exists>l\<in>set (splitlines u). raising_header l)"
    unfolding parse_unified_diff_def using parse_lines_raises [of "splitlines u" ValueError] by simp
  have 2: "(\<forall>l\<in>set (splitlines u). \<not> raising_header l) \<longrightarrow> (\<exists>hs. parse_unified_diff u = Inr hs)"
    unfolding parse_unified_diff_def using parse_lines_returns by blast
  have 3: "parse_unified_diff (join [CHR 0x0A] (pre @ (header_text g1 g2 g3 g4 @ t) # body @ rest)) =
            (if over_limit g1 (group_of g2) g3 (group_of g4) then Inl ValueError
             else case parse_unified_diff (join [CHR 0x0A] rest) of
                    Inl e \<Rightarrow> Inl e
                  | Inr hs \<Rightarrow>
                      Inr (\<lparr>old_start = int_of_digits g1,
                            old_len = (if group_of g2 = [] then 1 else int_of_digits (group_of g2)),
                            new_start = int_of_digits g3,
                            new_len = (if group_of g4 = [] then 1 else int_of_digits (group_of g4)),
                            ops = concat (map line_ops body),
                            old_snippet = join [CHR 0x0A] (concat (map line_old body)),
                            new_snippet = join [CHR 0x0A] (concat (map line_new body))\<rparr> # hs))"
    if d: "g1 \<noteq> []" "\<forall>c\<in>set g1. is_digit c" "g3 \<noteq> []" "\<forall>c\<in>set g3. is_digit c"
        "\<forall>c\<in>set (group_of g2). is_digit c" "\<forall>c\<in>set (group_of g4). is_digit c"
      and c: "clean t" "\<forall>x\<in>set (pre @ body @ rest). clean x"
      and p: "\<forall>x\<in>set pre. match_hunk_header x = None"
      and b: "\<forall>x\<in>set body. \<not> startswith x ''@@ ''"
      and r: "rest = [] \<or> startswith (hd rest) ''@@ ''"
  proof -
    have h: "clean (header_text g1 g2 g3 g4 @ t)"
      using header_text_clean [OF d(2,4,5,6)] c(1) by (simp add: clean_append)
    have all: "\<forall>x\<in>set (pre @ (header_text g1 g2 g3 g4 @ t) # body @ rest). clean x"
      using c(2) h by auto
    have rest: "\<forall>x\<in>set rest. clean x" using c(2) by simp
    have b': "\<forall>x\<in>set body. in_body x" using b by (simp add: in_body_def)
    have r': "rest = [] \<or> \<not> in_body (hd rest)" using r by (simp add: in_body_def)
    show ?thesis
      unfolding parse_joined_clean [OF all] parse_joined_clean [OF rest]
      by (rule parse_header_block [OF d p b' r'])
  qed
  have 5: "parse_unified_diff [] = Inr []"
    by (simp add: parse_unified_diff_def)
  have 6: "(\<forall>x\<in>set (splitlines u). match_hunk_header x = None) \<longrightarrow> parse_unified_diff u = Inr []"
    using parse_lines_skip_unmatched [of "splitlines u" "[]"] by (simp add: parse_unified_diff_def)
  show ?thesis using 1 2 3 5 6 by blast
qed

theorem parse_unified_diff_hunks_witness:
  "splitlines ''no header here'' = [''no header here'']
   \<and> match_hunk_header ''no header here'' = None
   \<and> parse_unified_diff ''no header here'' = Inr []
   \<and> match_hunk_header ''--- l'' = None \<and> match_hunk_header ''+++ r'' = None
   \<and> startswith ''@@ -x +1 @@'' ''@@ '' \<and> match_hunk_header ''@@ -x +1 @@'' = None
   \<and> header_text ''3'' None ''4'' (Some ''2'') @ '' f'' = ''@@ -3 +4,2 @@ f''
   \<and> startswith ''@@ bad'' ''@@ '' \<and> parse_unified_diff (join [CHR 0x0A] [''@@ bad'', '' q'']) = Inr []
   \<and> parse_unified_diff
        (join [CHR 0x0A] ([''--- l'', ''+++ r'', ''@@ -x +1 @@''] @ ''@@ -3 +4,2 @@ f''
           # [''-a'', [], ''+b'', ''+c''] @ [''@@ bad'', '' q''])) =
       Inr [\<lparr>old_start = 3, old_len = 1, new_start = 4, new_len = 2,
             ops = [\<lparr>op = ''del'', optext = ''a''\<rparr>, \<lparr>op = ''add'', optext = ''b''\<rparr>,
                    \<lparr>op = ''add'', optext = ''c''\<rparr>],
             old_snippet = ''a'', new_snippet = ''b'' @ [CHR 0x0A] @ ''c''\<rparr>]"
proof -
  have m: "match_hunk_header ''@@ -x +1 @@'' = None" "match_hunk_header ''--- l'' = None"
    "match_hunk_header ''+++ r'' = None" "match_hunk_header ''no header here'' = None"
    by (simp_all add: match_hunk_header_def is_digit_def cp_def)
  have h: "header_text ''3'' None ''4'' (Some ''2'') @ '' f'' = ''@@ -3 +4,2 @@ f''"
    by (simp add: header_text_def)
  have sl: "splitlines ''no header here'' = [''no header here'']"
    by (simp add: is_linebreak_def cp_def)
  have q: "parse_unified_diff (join [CHR 0x0A] [''@@ bad'', '' q'']) = Inr []"
    by code_simp
  have d: "int_of_digits ''3'' = 3" "int_of_digits ''4'' = 4" "int_of_digits ''2'' = 2"
    by (simp_all add: int_of_digits_def digit_val_def cp_def)
  have c: "clean '' f''" "clean ''--- l''" "clean ''+++ r''" "clean ''@@ -x +1 @@''" "clean ''-a''"
    "clean []" "clean ''+b''" "clean ''+c''" "clean ''@@ bad''" "clean '' q''"
    by (simp_all add: clean_def is_linebreak_def cp_def)
  have g: "\<forall>c\<in>set ''3''. is_digit c" "\<forall>c\<in>set ''4''. is_digit c" "\<forall>c\<in>set ''2''. is_digit c"
    by (simp_all add: is_digit_def cp_def)
  have o: "\<not> over_limit ''3'' [] ''4'' ''2''"
    by (simp add: over_limit_def max_str_digits_def)
  have j: "join [CHR 0x0A] [''a''] = ''a''" "join [CHR 0x0A] [''b'', ''c''] = ''b'' @ [CHR 0x0A] @ ''c''"
    by simp_all
  show ?thesis
    using parse_unified_diff_hunks
      [of "''no header here''" "''3''" "''4''" None "Some ''2''" "'' f''"
          "[''--- l'', ''+++ r'', ''@@ -x +1 @@'']" "[''-a'', [], ''+b'', ''+c'']" "[''@@ bad'', '' q'']"]
    unfolding h
    by (simp add: m sl q d c g o j group_of_def line_ops_def line_old_def line_new_def
          del: splitlines.simps join.simps)
qed

text \<open>
  Claim C5 as stated fails: \<^verbatim>\<open>int\<close> refuses the first number of this header, which has
  4301 digits, and the parser lets the \<^verbatim>\<open>ValueError\<close> through.
\<close>

theorem parse_unified_diff_raises_on_long_number:
  "parse_unified_diff (''@@ -'' @ replicate 4301 CHR ''1'' @ '' +1 @@'') = Inl ValueError"
proof -
  define g where "g = replicate 4301 CHR ''1''"
  have t: "''@@ -'' @ g @ '' +1 @@'' = header_text g None ''1'' None @ []"
    by (simp add: header_text_def)
  have d: "g \<noteq> []" "\<forall>c\<in>set g. is_digit c" "\<forall>c\<in>set ''1''. is_digit c"
    by (simp_all add: g_def is_digit_def cp_def)
  have c: "clean (header_text g None ''1'' None)"
    by (rule header_text_clean) (use d in \<open>simp_all add: group_of_def\<close>)
  have ne: "header_text g None ''1'' None \<noteq> []" by (simp add: header_text_def)
  have o: "over_limit g (group_of None) ''1'' (group_of None)"
    by (simp add: over_limit_def max_str_digits_def g_def)
  have "parse_lines ([] @ (header_text g None ''1'' None @ []) # [] @ []) = Inl ValueError"
    by (subst parse_header_block) (use d o in \<open>simp_all add: group_of_def\<close>)
  then show ?thesis
    unfolding g_def [symmetric] t parse_unified_diff_def
    using splitlines_clean [OF c ne] by simp
qed

text \<open>
  Claim C9.  A line of a hunk body that starts with none of \<^verbatim>\<open>-\<close>, \<^verbatim>\<open>+\<close> and a space
  (an empty line, for one) adds no operation and nothing to a snippet: the parser returns
  the same hunks with the line and without it.  Every operation of a parsed hunk is a
  \<^verbatim>\<open>del\<close>, an \<^verbatim>\<open>add\<close> or a \<^verbatim>\<open>ctx\<close>.
\<close>

theorem ignored_body_lines:
  "(\<not> startswith l ''@@ '' \<and> \<not> startswith l ''-'' \<and> \<not> startswith l ''+'' \<and> \<not> startswith l '' ''
      \<longrightarrow> scan_body (l # ls) os ob nb = scan_body ls os ob nb
        \<and> parse_lines (xs @ l # ys) = parse_lines (xs @ ys))
   \<and> parse_lines (xs @ [] # ys) = parse_lines (xs @ ys)
   \<and> (parse_unified_diff u = Inr hs \<longrightarrow>
        (\<forall>h\<in>set hs. \<forall>x\<in>set (ops h). op x = ''del'' \<or> op x = ''add'' \<or> op x = ''ctx''))"
proof -
  have 1: "parse_lines (xs @ l # ys) = parse_lines (xs @ ys)"
    if "\<not> startswith l ''@@ ''" "\<not> startswith l ''-''" "\<not> startswith l ''+''" "\<not> startswith l '' ''" for l
    using parse_lines_skip [OF skip_line [OF that]] .
  have 2: "parse_lines (xs @ [] # ys) = parse_lines (xs @ ys)"
    by (rule 1) simp_all
  have 3: "parse_unified_diff u = Inr hs \<longrightarrow>
        (\<forall>h\<in>set hs. \<forall>x\<in>set (ops h). op x = ''del'' \<or> op x = ''add'' \<or> op x = ''ctx'')"
    unfolding parse_unified_diff_def using parse_lines_ops by blast
  show ?thesis using 1 2 3 by simp
qed

theorem ignored_body_lines_witness:
  "\<not> startswith ''x'' ''@@ '' \<and> \<not> startswith ''x'' ''-'' \<and> \<not> startswith ''x'' ''+'' \<and> \<not> startswith ''x'' '' ''
   \<and> parse_lines ([''@@ -1 +1 @@'', ''-a''] @ ''x'' # [''+b'']) = parse_lines ([''@@ -1 +1 @@'', ''-a''] @ [''+b''])
   \<and> parse_unified_diff (''@@ -1 +1 @@'' @ [CHR 0x0A] @ ''-a'' @ [CHR 0x0A, CHR 0x0A] @ ''+b'' @ [CHR 0x0A]) =
        Inr [\<lparr>old_start = 1, old_len = 1, new_start = 1, new_len = 1,
             ops = [\<lparr>op = ''del'', optext = ''a''\<rparr>, \<lparr>op = ''add'', optext = ''b''\<rparr>],
             old_snippet = ''a'', new_snippet = ''b''\<rparr>]"
proof -
  have p: "parse_unified_diff (''@@ -1 +1 @@'' @ [CHR 0x0A] @ ''-a'' @ [CHR 0x0A, CHR 0x0A] @ ''+b'' @ [CHR 0x0A]) =
        Inr [\<lparr>old_start = 1, old_len = 1, new_start = 1, new_len = 1,
             ops = [\<lparr>op = ''del'', optext = ''a''\<rparr>, \<lparr>op = ''add'', optext = ''b''\<rparr>],
             old_snippet = ''a'', new_snippet = ''b''\<rparr>]"
    by code_simp
  show ?thesis
    using ignored_body_lines [of "''x''" "[]" "[]" "[]" "[]" "[''@@ -1 +1 @@'', ''-a'']" "[''+b'']"
        "''@@ -1 +1 @@'' @ [CHR 0x0A] @ ''-a'' @ [CHR 0x0A, CHR 0x0A] @ ''+b'' @ [CHR 0x0A]"
        "[\<lparr>old_start = 1, old_len = 1, new_start = 1, new_len = 1,
             ops = [\<lparr>op = ''del'', optext = ''a''\<rparr>, \<lparr>op = ''add'', optext = ''b''\<rparr>],
             old_snippet = ''a'', new_snippet = ''b''\<rparr>]"] p
    by simp
qed

section \<open>Floating point numbers\<close>


datatype pyfloat = Fin rat | NegZero | PosInf | NegInf

function bit_length :: "int \<Rightarrow> int" where
  "bit_length n = (if n \<le> 0 then 0 else 1 + bit_length (n div 2))"
  by pat_completeness auto
termination
  by (relation "measure nat") auto

declare bit_length.simps [simp del]

definition floor_log2 :: "rat \<Rightarrow> int" where
  "floor_log2 x =
     (let (p, q) = quotient_of x;
          e = bit_length p - bit_length q
      in if 2 powi e \<le> x then e else e - 1)"

definition round_half_even :: "rat \<Rightarrow> int" where
  "round_half_even x =
     (let f = \<lfloor>x\<rfloor>; d = x - of_int f
      in if d < 1 / 2 then f else if 1 / 2 < d then f + 1 else if even f then f else f + 1)"

definition round_mag :: "rat \<Rightarrow> rat option" where
  "round_mag x =
     (if x = 0 then Some 0 else
      let e = max (floor_log2 x - 52) (- 1074);
          r = of_int (round_half_even (x / 2 powi e)) * 2 powi e
      in if 1024 \<le> floor_log2 r then None else Some r)"

definition to_float :: "bool \<Rightarrow> rat \<Rightarrow> pyfloat" where
  "to_float neg x =
     (case round_mag x of
        None \<Rightarrow> (if neg then NegInf else PosInf)
      | Some r \<Rightarrow> (if neg then (if r = 0 then NegZero else Fin (- r)) else Fin r))"

definition round_double :: "rat \<Rightarrow> pyfloat" where
  "round_double x = to_float (x < 0) \<bar>x\<bar>"

fun pf_sub_from_one :: "pyfloat \<Rightarrow> pyfloat" where
  "pf_sub_from_one (Fin x) = round_double (1 - x)"
| "pf_sub_from_one NegZero = Fin 1"
| "pf_sub_from_one PosInf = NegInf"
| "pf_sub_from_one NegInf = PosInf"

fun pf_times_100 :: "pyfloat \<Rightarrow> pyfloat" where
  "pf_times_100 (Fin x) = round_double (x * 100)"
| "pf_times_100 NegZero = NegZero"
| "pf_times_100 PosInf = PosInf"
| "pf_times_100 NegInf = NegInf"

fun py_round :: "pyfloat \<Rightarrow> nat \<Rightarrow> pyfloat" where
  "py_round (Fin x) n = to_float (x < 0) (of_int (round_half_even (\<bar>x\<bar> * 10 ^ n)) / 10 ^ n)"
| "py_round NegZero n = NegZero"
| "py_round PosInf n = PosInf"
| "py_round NegInf n = NegInf"

definition ratio_of :: "nat \<Rightarrow> nat \<Rightarrow> pyfloat" where
  "ratio_of m t = round_double (2 * of_nat m / of_nat t)"

section \<open>The heuristic analyzer\<close>


fun pf_key :: "pyfloat \<Rightarrow> int \<times> rat" where
  "pf_key (Fin x) = (0, x)"
| "pf_key NegZero = (0, 0)"
| "pf_key PosInf = (1, 0)"
| "pf_key NegInf = (- 1, 0)"

definition pf_less :: "pyfloat \<Rightarrow> pyfloat \<Rightarrow> bool" where
  "pf_less a b \<longleftrightarrow> fst (pf_key a) < fst (pf_key b)
     \<or> (fst (pf_key a) = fst (pf_key b) \<and> snd (pf_key a) < snd (pf_key b))"

definition py_float_decimal :: "string \<Rightarrow> pyfloat" where
  "py_float_decimal s =
     (let neg = startswith s ''-'';
          body = (if neg then tl s else s);
          ip = takeWhile is_digit body;
          fp = takeWhile is_digit (drop (Suc (length ip)) body)
      in to_float neg (of_int (int_of_digits (ip @ fp)) / 10 ^ length fp))"

fun contains :: "string \<Rightarrow> string \<Rightarrow> bool" where
  "contains [] sub = (sub = [])"
| "contains (c # cs) sub = (startswith (c # cs) sub \<or> contains cs sub)"

definition at_word_end :: "string \<Rightarrow> bool" where
  "at_word_end r = (case r of [] \<Rightarrow> True | d # _ \<Rightarrow> \<not> is_word d)"

fun search_word :: "bool \<Rightarrow> string \<Rightarrow> string \<Rightarrow> bool" where
  "search_word prev_word w [] = False"
| "search_word prev_word w (c # cs) =
     ((\<not> prev_word \<and> startswith (c # cs) w \<and> at_word_end (drop (length w) (c # cs)))
      \<or> search_word (is_word c) w cs)"

definition is_ident_char :: "char \<Rightarrow> bool" where
  "is_ident_char c \<longleftrightarrow> is_ascii_alpha c \<or> is_digit c \<or> c = CHR ''_''"

definition numeric_assign_match :: "string \<Rightarrow> (string \<times> string) option" where
  "numeric_assign_match s =
     (let r0 = dropWhile is_space s;
          ident = takeWhile is_ident_char r0;
          r2 = dropWhile is_space (dropWhile is_ident_char r0)
      in if ident = [] \<or> is_digit (hd ident) \<or> \<not> startswith r2 ''='' then None else
      let r3 = dropWhile is_space (tl r2);
          sign = (if startswith r3 ''-'' then ''-'' else []);
          r4 = (if startswith r3 ''-'' then tl r3 else r3);
          ip = takeWhile is_digit r4;
          r5 = dropWhile is_digit r4;
          has_frac = (startswith r5 ''.'' \<and> takeWhile is_digit (tl r5) \<noteq> []);
          fp = (if has_frac then ''.'' @ takeWhile is_digit (tl r5) else []);
          r6 = (if has_frac then dropWhile is_digit (tl r5) else r5);
          r7 = dropWhile is_space r6;
          c = dropWhile (\<lambda>x. x \<noteq> CHR 0x0A) (tl r7)
      in if ip \<noteq> [] \<and> (r7 = [] \<or> (startswith r7 ''#'' \<and> (c = [] \<or> c = [CHR 0x0A])))
         then Some (ident, sign @ ip @ fp) else None)"


record numeric_change =
  key :: string
  old :: pyfloat
  new :: pyfloat

record heuristics =
  risk_flags :: "string list"
  numeric_changes :: "numeric_change list"
  removed_keywords :: "string list"
  added_keywords :: "string list"

definition op_flags :: "diff_op \<Rightarrow> string list" where
  "op_flags x =
     (let t = optext x in
      (if op x = ''del'' \<and> contains t ''try:'' then [''removed_try_block''] else [])
      @ (if op x = ''del'' \<and> contains t ''assert '' then [''removed_assert''] else [])
      @ (if op x = ''del'' \<and> (search_word False ''log'' t \<or> search_word False ''logger'' t)
         then [''removed_logging''] else [])
      @ (if op x = ''add'' \<and> (search_word False ''todo'' (lower t) \<or> search_word False ''fixme'' (lower t))
         then [''todo_added''] else []))"

definition op_step :: "heuristics \<Rightarrow> diff_op \<Rightarrow> heuristics" where
  "op_step st x = st\<lparr>risk_flags := risk_flags st @ op_flags x\<rparr>"

definition adds_step :: "string \<Rightarrow> pyfloat \<Rightarrow> heuristics \<Rightarrow> string \<Rightarrow> heuristics" where
  "adds_step k old_val st a =
     (case numeric_assign_match a of
        None \<Rightarrow> st
      | Some (k', g2) \<Rightarrow>
          if k' = k then
            (let new_val = py_float_decimal g2;
                 st1 = st\<lparr>numeric_changes := numeric_changes st @ [\<lparr>key = k, old = old_val, new = new_val\<rparr>]\<rparr>
             in if pf_less new_val old_val then st1\<lparr>risk_flags := risk_flags st1 @ [''reduced_'' @ k]\<rparr>
                else if pf_less old_val new_val then st1\<lparr>risk_flags := risk_flags st1 @ [''increased_'' @ k]\<rparr>
                else st1)
          else st)"

definition dels_step :: "string list \<Rightarrow> heuristics \<Rightarrow> string \<Rightarrow> heuristics" where
  "dels_step adds st d =
     (case numeric_assign_match d of
        None \<Rightarrow> st
      | Some (k, g2) \<Rightarrow> foldl (adds_step k (py_float_decimal g2)) st adds)"

definition hunk_step :: "heuristics \<Rightarrow> hunk \<Rightarrow> heuristics" where
  "hunk_step st h =
     (let st1 = foldl op_step st (ops h);
          dels = map optext (filter (\<lambda>x. op x = ''del'') (ops h));
          adds = map optext (filter (\<lambda>x. op x = ''add'') (ops h));
          st2 = foldl (dels_step adds) st1 dels
      in st2\<lparr>removed_keywords := removed_keywords st2 @
               map optext (filter (\<lambda>x. op x = ''del'' \<and> contains (lower (optext x)) ''password'') (ops h)),
             added_keywords := added_keywords st2 @
               map optext (filter (\<lambda>x. op x = ''add'' \<and> contains (lower (optext x)) ''password'') (ops h))\<rparr>)"

definition simple_heuristics :: "hunk list \<Rightarrow> heuristics" where
  "simple_heuristics hunks =
     (let st = foldl hunk_step
                 \<lparr>risk_flags = [], numeric_changes = [], removed_keywords = [], added_keywords = []\<rparr> hunks
      in st\<lparr>risk_flags := sort (remdups (risk_flags st))\<rparr>)"

text \<open>The pairs of the claim, written from its words.\<close>

definition matching_pairs :: "hunk \<Rightarrow> numeric_change list" where
  "matching_pairs h =
     concat (map (\<lambda>d. case numeric_assign_match d of None \<Rightarrow> [] | Some (k, vo) \<Rightarrow>
       concat (map (\<lambda>a. case numeric_assign_match a of None \<Rightarrow> [] | Some (k', vn) \<Rightarrow>
         if k' = k then [\<lparr>key = k, old = py_float_decimal vo, new = py_float_decimal vn\<rparr>] else [])
         (map optext (filter (\<lambda>x. op x = ''add'') (ops h)))))
       (map optext (filter (\<lambda>x. op x = ''del'') (ops h))))"

definition direction_flags :: "numeric_change \<Rightarrow> string list" where
  "direction_flags e =
     (if pf_less (new e) (old e) then [''reduced_'' @ key e]
      else if pf_less (old e) (new e) then [''increased_'' @ key e] else [])"

definition pair_entries :: "string \<Rightarrow> pyfloat \<Rightarrow> string list \<Rightarrow> numeric_change list" where
  "pair_entries k ov adds =
     concat (map (\<lambda>a. case numeric_assign_match a of None \<Rightarrow> [] | Some (k', vn) \<Rightarrow>
         if k' = k then [\<lparr>key = k, old = ov, new = py_float_decimal vn\<rparr>] else []) adds)"

definition del_entries :: "string list \<Rightarrow> string list \<Rightarrow> numeric_change list" where
  "del_entries adds dels =
     concat (map (\<lambda>d. case numeric_assign_match d of None \<Rightarrow> [] | Some (k, vo) \<Rightarrow>
        pair_entries k (py_float_decimal vo) adds) dels)"

lemma pair_entries_Cons:
  "pair_entries k ov (a # adds) = pair_entries k ov [a] @ pair_entries k ov adds"
  by (simp add: pair_entries_def)

lemma del_entries_Cons:
  "del_entries adds (d # dels) = del_entries adds [d] @ del_entries adds dels"
  by (simp add: del_entries_def)

lemma adds_step_eq:
  "adds_step k ov st a =
     st\<lparr>risk_flags := risk_flags st @ concat (map direction_flags (pair_entries k ov [a])),
        numeric_changes := numeric_changes st @ pair_entries k ov [a]\<rparr>"
  by (cases "numeric_assign_match a")
     (auto simp: adds_step_def pair_entries_def direction_flags_def Let_def)

lemma adds_fold:
  "foldl (adds_step k ov) st adds =
     st\<lparr>risk_flags := risk_flags st @ concat (map direction_flags (pair_entries k ov adds)),
        numeric_changes := numeric_changes st @ pair_entries k ov adds\<rparr>"
proof (induction adds arbitrary: st)
  case Nil
  show ?case by (simp add: pair_entries_def)
next
  case (Cons a adds)
  have "pair_entries k ov (a # adds) = pair_entries k ov [a] @ pair_entries k ov adds"
    by (rule pair_entries_Cons)
  then show ?case
    by (simp only: foldl_Cons Cons.IH) (simp add: adds_step_eq)
qed

lemma dels_step_eq:
  "dels_step adds st d =
     st\<lparr>risk_flags := risk_flags st @ concat (map direction_flags (del_entries adds [d])),
        numeric_changes := numeric_changes st @ del_entries adds [d]\<rparr>"
  by (cases "numeric_assign_match d")
     (auto simp: dels_step_def del_entries_def adds_fold)

lemma dels_fold:
  "foldl (dels_step adds) st dels =
     st\<lparr>risk_flags := risk_flags st @ concat (map direction_flags (del_entries adds dels)),
        numeric_changes := numeric_changes st @ del_entries adds dels\<rparr>"
proof (induction dels arbitrary: st)
  case Nil
  show ?case by (simp add: del_entries_def)
next
  case (Cons d dels)
  have "del_entries adds (d # dels) = del_entries adds [d] @ del_entries adds dels"
    by (rule del_entries_Cons)
  then show ?case
    by (simp only: foldl_Cons Cons.IH) (simp add: dels_step_eq)
qed

lemma ops_fold:
  "foldl op_step st xs = st\<lparr>risk_flags := risk_flags st @ concat (map op_flags xs)\<rparr>"
proof (induction xs arbitrary: st)
  case Nil
  show ?case by simp
next
  case (Cons x xs)
  show ?case by (simp only: foldl_Cons Cons.IH) (simp add: op_step_def)
qed

lemma matching_pairs_eq:
  "matching_pairs h = del_entries (map optext (filter (\<lambda>x. op x = ''add'') (ops h)))
      (map optext (filter (\<lambda>x. op x = ''del'') (ops h)))"
  unfolding matching_pairs_def del_entries_def pair_entries_def by simp

definition hunk_flags :: "hunk \<Rightarrow> string list" where
  "hunk_flags h = concat (map op_flags (ops h)) @ concat (map direction_flags (matching_pairs h))"

lemma hunk_step_eq:
  "hunk_step st h =
     \<lparr>risk_flags = risk_flags st @ hunk_flags h,
      numeric_changes = numeric_changes st @ matching_pairs h,
      removed_keywords = removed_keywords st @
         map optext (filter (\<lambda>x. op x = ''del'' \<and> contains (lower (optext x)) ''password'') (ops h)),
      added_keywords = added_keywords st @
         map optext (filter (\<lambda>x. op x = ''add'' \<and> contains (lower (optext x)) ''password'') (ops h))\<rparr>"
  by (simp add: hunk_step_def Let_def ops_fold dels_fold matching_pairs_eq hunk_flags_def)

lemma hunks_fold:
  "foldl hunk_step st hs =
     \<lparr>risk_flags = risk_flags st @ concat (map hunk_flags hs),
      numeric_changes = numeric_changes st @ concat (map matching_pairs hs),
      removed_keywords = removed_keywords st @ concat (map (\<lambda>h.
         map optext (filter (\<lambda>x. op x = ''del'' \<and> contains (lower (optext x)) ''password'') (ops h))) hs),
      added_keywords = added_keywords st @ concat (map (\<lambda>h.
         map optext (filter (\<lambda>x. op x = ''add'' \<and> contains (lower (optext x)) ''password'') (ops h))) hs)\<rparr>"
proof (induction hs arbitrary: st)
  case Nil
  show ?case by simp
next
  case (Cons h hs)
  show ?case by (simp only: foldl_Cons Cons.IH) (simp add: hunk_step_eq)
qed

lemma simple_heuristics_eq:
  "simple_heuristics hs =
     \<lparr>risk_flags = sort (remdups (concat (map hunk_flags hs))),
      numeric_changes = concat (map matching_pairs hs),
      removed_keywords = concat (map (\<lambda>h.
         map optext (filter (\<lambda>x. op x = ''del'' \<and> contains (lower (optext x)) ''password'') (ops h))) hs),
      added_keywords = concat (map (\<lambda>h.
         map optext (filter (\<lambda>x. op x = ''add'' \<and> contains (lower (optext x)) ''password'') (ops h))) hs)\<rparr>"
  by (simp add: simple_heuristics_def hunks_fold)

lemma op_flags_fixed:
  "f \<in> set (op_flags x) \<Longrightarrow>
     f \<in> {''removed_try_block'', ''removed_assert'', ''removed_logging'', ''todo_added''}"
  by (auto simp: op_flags_def Let_def split: if_splits)

lemma reduced_flag_iff:
  "''reduced_'' @ k \<in> set (concat (map hunk_flags hs)) \<longleftrightarrow>
     (\<exists>e\<in>set (concat (map matching_pairs hs)). key e = k \<and> pf_less (new e) (old e))"
  (is "?L = ?R")
proof
  assume ?L
  then obtain h where h: "h \<in> set hs" "''reduced_'' @ k \<in> set (hunk_flags h)" by auto
  then consider x where "x \<in> set (ops h)" "''reduced_'' @ k \<in> set (op_flags x)"
    | e where "e \<in> set (matching_pairs h)" "''reduced_'' @ k \<in> set (direction_flags e)"
    by (auto simp: hunk_flags_def)
  then show ?R
  proof cases
    case 1
    then show ?thesis using op_flags_fixed [of "''reduced_'' @ k" x] by simp
  next
    case 2
    then have "key e = k \<and> pf_less (new e) (old e)"
      by (auto simp: direction_flags_def split: if_splits)
    then show ?thesis using h(1) 2(1) by auto
  qed
next
  assume ?R
  then obtain h e where "h \<in> set hs" "e \<in> set (matching_pairs h)" "key e = k" "pf_less (new e) (old e)"
    by auto
  then show ?L
    by (auto simp: hunk_flags_def direction_flags_def intro!: bexI [of _ h])
qed

lemma pf_less_asym: "pf_less a b \<Longrightarrow> \<not> pf_less b a"
  by (auto simp: pf_less_def)

lemma increased_flag_iff:
  "''increased_'' @ k \<in> set (concat (map hunk_flags hs)) \<longleftrightarrow>
     (\<exists>e\<in>set (concat (map matching_pairs hs)). key e = k \<and> pf_less (old e) (new e))"
  (is "?L = ?R")
proof
  assume ?L
  then obtain h where h: "h \<in> set hs" "''increased_'' @ k \<in> set (hunk_flags h)" by auto
  then consider x where "x \<in> set (ops h)" "''increased_'' @ k \<in> set (op_flags x)"
    | e where "e \<in> set (matching_pairs h)" "''increased_'' @ k \<in> set (direction_flags e)"
    by (auto simp: hunk_flags_def)
  then show ?R
  proof cases
    case 1
    then show ?thesis using op_flags_fixed [of "''increased_'' @ k" x] by simp
  next
    case 2
    then have "key e = k \<and> pf_less (old e) (new e)"
      by (auto simp: direction_flags_def split: if_splits)
    then show ?thesis using h(1) 2(1) by auto
  qed
next
  assume ?R
  then obtain h e where "h \<in> set hs" "e \<in> set (matching_pairs h)" "key e = k" "pf_less (old e) (new e)"
    by auto
  then show ?L
    using pf_less_asym [of "old e" "new e"]
    by (auto simp: hunk_flags_def direction_flags_def intro!: bexI [of _ h])
qed


text \<open>
  Claim C4.  The numeric changes of \<^verbatim>\<open>simple_heuristics\<close> are, hunk after hunk, one entry
  for every deleted line and every added line of the hunk that both match the numeric
  assignment pattern with the same identifier; nothing is merged by key.  The flag
  \<^verbatim>\<open>reduced_k\<close> is raised exactly when some entry with key \<^verbatim>\<open>k\<close> has new below old,
  \<^verbatim>\<open>increased_k\<close> exactly when some entry has new above old, so equal values raise
  neither.  A hunk that deletes \<^verbatim>\<open>max_retries = 5\<close> and adds \<^verbatim>\<open>max_retries = 2\<close> gives the
  one entry with old 5.0 and new 2.0 and the flag \<^verbatim>\<open>reduced_max_retries\<close>.
\<close>

theorem numeric_changes_all_pairs:
  "numeric_changes (simple_heuristics hs) = concat (map matching_pairs hs)
   \<and> (''reduced_'' @ k \<in> set (risk_flags (simple_heuristics hs)) \<longleftrightarrow>
        (\<exists>e\<in>set (numeric_changes (simple_heuristics hs)). key e = k \<and> pf_less (new e) (old e)))
   \<and> (''increased_'' @ k \<in> set (risk_flags (simple_heuristics hs)) \<longleftrightarrow>
        (\<exists>e\<in>set (numeric_changes (simple_heuristics hs)). key e = k \<and> pf_less (old e) (new e)))
   \<and> numeric_changes (simple_heuristics
         [h\<lparr>ops := [\<lparr>op = ''del'', optext = ''max_retries = 5''\<rparr>,
                    \<lparr>op = ''add'', optext = ''max_retries = 2''\<rparr>]\<rparr>]) =
       [\<lparr>key = ''max_retries'', old = Fin 5, new = Fin 2\<rparr>]
   \<and> risk_flags (simple_heuristics
         [h\<lparr>ops := [\<lparr>op = ''del'', optext = ''max_retries = 5''\<rparr>,
                    \<lparr>op = ''add'', optext = ''max_retries = 2''\<rparr>]\<rparr>]) =
       [''reduced_max_retries'']"
proof -
  have m5: "numeric_assign_match ''max_retries = 5'' = Some (''max_retries'', ''5'')"
    by code_simp
  have m2: "numeric_assign_match ''max_retries = 2'' = Some (''max_retries'', ''2'')"
    by code_simp
  have f5: "py_float_decimal ''5'' = Fin 5" by code_simp
  have f2: "py_float_decimal ''2'' = Fin 2" by code_simp
  have fl: "op_flags \<lparr>op = ''del'', optext = ''max_retries = 5''\<rparr> = []"
    "op_flags \<lparr>op = ''add'', optext = ''max_retries = 2''\<rparr> = []"
    by code_simp+
  have mp: "matching_pairs (h\<lparr>ops := [\<lparr>op = ''del'', optext = ''max_retries = 5''\<rparr>,
                    \<lparr>op = ''add'', optext = ''max_retries = 2''\<rparr>]\<rparr>) =
       [\<lparr>key = ''max_retries'', old = Fin 5, new = Fin 2\<rparr>]"
    by (simp add: matching_pairs_def m5 m2 f5 f2)
  have lt: "pf_less (Fin 2) (Fin 5)" by (simp add: pf_less_def)
  have 1: "numeric_changes (simple_heuristics hs) = concat (map matching_pairs hs)"
    by (simp add: simple_heuristics_eq)
  have rf: "set (risk_flags (simple_heuristics hs)) = set (concat (map hunk_flags hs))"
    by (simp add: simple_heuristics_eq)
  have 2: "''reduced_'' @ k \<in> set (risk_flags (simple_heuristics hs)) \<longleftrightarrow>
        (\<exists>e\<in>set (numeric_changes (simple_heuristics hs)). key e = k \<and> pf_less (new e) (old e))"
    unfolding rf 1 by (rule reduced_flag_iff)
  have 3: "''increased_'' @ k \<in> set (risk_flags (simple_heuristics hs)) \<longleftrightarrow>
        (\<exists>e\<in>set (numeric_changes (simple_heuristics hs)). key e = k \<and> pf_less (old e) (new e))"
    unfolding rf 1 by (rule increased_flag_iff)
  have 4: "numeric_changes (simple_heuristics
         [h\<lparr>ops := [\<lparr>op = ''del'', optext = ''max_retries = 5''\<rparr>,
                    \<lparr>op = ''add'', optext = ''max_retries = 2''\<rparr>]\<rparr>]) =
       [\<lparr>key = ''max_retries'', old = Fin 5, new = Fin 2\<rparr>]"
    by (simp add: simple_heuristics_eq mp)
  have 5: "risk_flags (simple_heuristics
         [h\<lparr>ops := [\<lparr>op = ''del'', optext = ''max_retries = 5''\<rparr>,
                    \<lparr>op = ''add'', optext = ''max_retries = 2''\<rparr>]\<rparr>]) =
       [''reduced_max_retries'']"
    by (simp add: simple_heuristics_eq mp hunk_flags_def fl direction_flags_def lt)
  show ?thesis using 1 2 3 4 5 by blast
qed

theorem numeric_changes_all_pairs_witness:
  "numeric_changes (simple_heuristics
     [\<lparr>old_start = 1, old_len = 2, new_start = 1, new_len = 2,
       ops = [\<lparr>op = ''del'', optext = ''n = 1''\<rparr>, \<lparr>op = ''del'', optext = ''n = 3''\<rparr>,
              \<lparr>op = ''add'', optext = ''n = 2''\<rparr>, \<lparr>op = ''add'', optext = ''n = 3.0 # same''\<rparr>],
       old_snippet = ''n = 1'' @ [CHR 0x0A] @ ''n = 3'',
       new_snippet = ''n = 2'' @ [CHR 0x0A] @ ''n = 3.0 # same''\<rparr>]) =
     [\<lparr>key = ''n'', old = Fin 1, new = Fin 2\<rparr>, \<lparr>key = ''n'', old = Fin 1, new = Fin 3\<rparr>,
      \<lparr>key = ''n'', old = Fin 3, new = Fin 2\<rparr>, \<lparr>key = ''n'', old = Fin 3, new = Fin 3\<rparr>]"
proof -
  have "concat (map matching_pairs
     [\<lparr>old_start = 1, old_len = 2, new_start = 1, new_len = 2,
       ops = [\<lparr>op = ''del'', optext = ''n = 1''\<rparr>, \<lparr>op = ''del'', optext = ''n = 3''\<rparr>,
              \<lparr>op = ''add'', optext = ''n = 2''\<rparr>, \<lparr>op = ''add'', optext = ''n = 3.0 # same''\<rparr>],
       old_snippet = ''n = 1'' @ [CHR 0x0A] @ ''n = 3'',
       new_snippet = ''n = 2'' @ [CHR 0x0A] @ ''n = 3.0 # same''\<rparr>]) =
     [\<lparr>key = ''n'', old = Fin 1, new = Fin 2\<rparr>, \<lparr>key = ''n'', old = Fin 1, new = Fin 3\<rparr>,
      \<lparr>key = ''n'', old = Fin 3, new = Fin 2\<rparr>, \<lparr>key = ''n'', old = Fin 3, new = Fin 3\<rparr>]"
    by code_simp
  then show ?thesis
    using numeric_changes_all_pairs [of "[\<lparr>old_start = 1, old_len = 2, new_start = 1, new_len = 2,
       ops = [\<lparr>op = ''del'', optext = ''n = 1''\<rparr>, \<lparr>op = ''del'', optext = ''n = 3''\<rparr>,
              \<lparr>op = ''add'', optext = ''n = 2''\<rparr>, \<lparr>op = ''add'', optext = ''n = 3.0 # same''\<rparr>],
       old_snippet = ''n = 1'' @ [CHR 0x0A] @ ''n = 3'',
       new_snippet = ''n = 2'' @ [CHR 0x0A] @ ''n = 3.0 # same''\<rparr>]"]
    by simp
qed



section \<open>The sequence matcher of difflib\<close>

definition chain_b_index :: "'a list \<Rightarrow> ('a \<rightharpoonup> nat list)" where
  "chain_b_index b =
     fold (\<lambda>(i, elt) m. m(elt \<mapsto> (case m elt of None \<Rightarrow> [] | Some idxs \<Rightarrow> idxs) @ [i]))
       (enumerate 0 b) Map.empty"

definition chain_b :: "'a list \<Rightarrow> ('a \<rightharpoonup> nat list)" where
  "chain_b b =
     (let b2j = chain_b_index b; n = length b
      in if 200 \<le> n
         then (\<lambda>elt. case b2j elt of None \<Rightarrow> None
                 | Some idxs \<Rightarrow> if n div 100 + 1 < length idxs then None else Some idxs)
         else b2j)"

fun flm_inner :: "nat \<Rightarrow> nat \<Rightarrow> nat \<Rightarrow> (nat \<rightharpoonup> nat) \<Rightarrow> nat list \<Rightarrow>
    (nat \<rightharpoonup> nat) \<times> nat \<times> nat \<times> nat \<Rightarrow> (nat \<rightharpoonup> nat) \<times> nat \<times> nat \<times> nat" where
  "flm_inner blo bhi i j2len [] st = st"
| "flm_inner blo bhi i j2len (j # js) (newj2len, besti, bestj, bestsize) =
     (if j < blo then flm_inner blo bhi i j2len js (newj2len, besti, bestj, bestsize)
      else if bhi \<le> j then (newj2len, besti, bestj, bestsize)
      else
        (let k = (case j of 0 \<Rightarrow> 0 | Suc j' \<Rightarrow> (case j2len j' of None \<Rightarrow> 0 | Some v \<Rightarrow> v)) + 1
         in if bestsize < k
            then flm_inner blo bhi i j2len js (newj2len(j \<mapsto> k), i + 1 - k, j + 1 - k, k)
            else flm_inner blo bhi i j2len js (newj2len(j \<mapsto> k), besti, bestj, bestsize)))"

fun flm_outer :: "'a list \<Rightarrow> ('a \<rightharpoonup> nat list) \<Rightarrow> nat \<Rightarrow> nat \<Rightarrow> nat list \<Rightarrow>
    (nat \<rightharpoonup> nat) \<times> nat \<times> nat \<times> nat \<Rightarrow> nat \<times> nat \<times> nat" where
  "flm_outer a b2j blo bhi [] (j2len, best) = best"
| "flm_outer a b2j blo bhi (i # is) (j2len, best) =
     (case flm_inner blo bhi i j2len (case b2j (a ! i) of None \<Rightarrow> [] | Some js \<Rightarrow> js)
             (Map.empty, best) of
        (newj2len, best') \<Rightarrow> flm_outer a b2j blo bhi is (newj2len, best'))"

function extend_left :: "'a list \<Rightarrow> 'a list \<Rightarrow> nat \<Rightarrow> nat \<Rightarrow> nat \<times> nat \<times> nat \<Rightarrow> nat \<times> nat \<times> nat" where
  "extend_left a b alo blo (besti, bestj, bestsize) =
     (if alo < besti \<and> blo < bestj \<and> a ! (besti - 1) = b ! (bestj - 1)
      then extend_left a b alo blo (besti - 1, bestj - 1, bestsize + 1)
      else (besti, bestj, bestsize))"
  by pat_completeness auto
termination
  by (relation "measure (\<lambda>(a, b, alo, blo, besti, bestj, bestsize). besti)") auto

function extend_right :: "'a list \<Rightarrow> 'a list \<Rightarrow> nat \<Rightarrow> nat \<Rightarrow> nat \<times> nat \<times> nat \<Rightarrow> nat \<times> nat \<times> nat" where
  "extend_right a b ahi bhi (besti, bestj, bestsize) =
     (if besti + bestsize < ahi \<and> bestj + bestsize < bhi \<and> a ! (besti + bestsize) = b ! (bestj + bestsize)
      then extend_right a b ahi bhi (besti, bestj, bestsize + 1)
      else (besti, bestj, bestsize))"
  by pat_completeness auto
termination
  by (relation "measure (\<lambda>(a, b, ahi, bhi, besti, bestj, bestsize). ahi - (besti + bestsize))") auto

definition find_longest_match ::
    "'a list \<Rightarrow> 'a list \<Rightarrow> ('a \<rightharpoonup> nat list) \<Rightarrow> nat \<Rightarrow> nat \<Rightarrow> nat \<Rightarrow> nat \<Rightarrow> nat \<times> nat \<times> nat" where
  "find_longest_match a b b2j alo ahi blo bhi =
     extend_right a b ahi bhi
       (extend_left a b alo blo
         (flm_outer a b2j blo bhi [alo..<ahi] (Map.empty, alo, blo, 0)))"


declare extend_left.simps [simp del] extend_right.simps [simp del]

lemma flm_inner_bounds:
  assumes "\<forall>j v. j2len j = Some v \<longrightarrow> v \<le> i - alo" "alo \<le> i"
    and "\<forall>j v. nj j = Some v \<longrightarrow> v \<le> i + 1 - alo" "alo \<le> bi" "bi + bs \<le> i + 1"
    and "flm_inner blo bhi i j2len js (nj, bi, bj, bs) = (nj', bi', bj', bs')"
  shows "(\<forall>j v. nj' j = Some v \<longrightarrow> v \<le> i + 1 - alo) \<and> alo \<le> bi' \<and> bi' + bs' \<le> i + 1"
  using assms(3-)
proof (induction js arbitrary: nj bi bj bs)
  case Nil
  then show ?case by simp
next
  case (Cons j js)
  define k where "k = (case j of 0 \<Rightarrow> 0 | Suc j' \<Rightarrow> (case j2len j' of None \<Rightarrow> 0 | Some v \<Rightarrow> v)) + 1"
  have k: "k \<le> i + 1 - alo" "1 \<le> k"
    using assms(1,2) by (auto simp: k_def split: nat.splits option.splits) (metis Suc_diff_le Suc_le_mono)
  have nj: "\<forall>j' v. (nj(j \<mapsto> k)) j' = Some v \<longrightarrow> v \<le> i + 1 - alo"
    using Cons.prems(1) k by auto
  show ?case
  proof (cases "j < blo")
    case True
    then show ?thesis using Cons by simp
  next
    case False
    show ?thesis
    proof (cases "bhi \<le> j")
      case True
      then show ?thesis using Cons.prems False by simp
    next
      case nb: False
      show ?thesis
      proof (cases "bs < k")
        case True
        have "flm_inner blo bhi i j2len js (nj(j \<mapsto> k), i + 1 - k, j + 1 - k, k) = (nj', bi', bj', bs')"
          using Cons.prems(4) False nb True by (simp add: k_def Let_def)
        moreover have "alo \<le> i + 1 - k" "i + 1 - k + k \<le> i + 1" using k assms(2) by auto
        ultimately show ?thesis using Cons.IH nj by blast
      next
        case nlt: False
        have "flm_inner blo bhi i j2len js (nj(j \<mapsto> k), bi, bj, bs) = (nj', bi', bj', bs')"
          using Cons.prems(4) False nb nlt by (simp add: k_def Let_def)
        then show ?thesis using Cons.IH nj Cons.prems(2,3) by blast
      qed
    qed
  qed
qed

lemma flm_outer_bounds:
  assumes "\<forall>j v. j2len j = Some v \<longrightarrow> v \<le> i - alo" "alo \<le> i" "i \<le> ahi"
    and "alo \<le> bi" "bi + bs \<le> i"
    and "flm_outer a b2j blo bhi [i..<ahi] (j2len, bi, bj, bs) = (bi', bj', bs')"
  shows "alo \<le> bi' \<and> bi' + bs' \<le> ahi"
  using assms
proof (induction "ahi - i" arbitrary: i j2len bi bj bs)
  case 0
  then show ?case by simp
next
  case (Suc n)
  then have lt: "i < ahi" by simp
  then have up: "[i..<ahi] = i # [Suc i..<ahi]" by (simp add: upt_conv_Cons)
  obtain nj ci cj cs where inner:
    "flm_inner blo bhi i j2len (case b2j (a ! i) of None \<Rightarrow> [] | Some js \<Rightarrow> js) (Map.empty, bi, bj, bs)
       = (nj, ci, cj, cs)"
    by (metis prod_cases4)
  have "(\<forall>j v. nj j = Some v \<longrightarrow> v \<le> i + 1 - alo) \<and> alo \<le> ci \<and> ci + cs \<le> i + 1"
    using flm_inner_bounds [OF Suc.prems(1,2) _ Suc.prems(4) _ inner] Suc.prems(5) by simp
  moreover have "flm_outer a b2j blo bhi [Suc i..<ahi] (nj, ci, cj, cs) = (bi', bj', bs')"
    using Suc.prems(6) inner unfolding up by simp
  moreover have "n = ahi - Suc i" using Suc.hyps(2) by simp
  ultimately show ?case
    using Suc.hyps(1) [of "Suc i" nj ci cs cj] Suc.prems(2) lt by simp
qed

lemma extend_left_bounds:
  "extend_left a b alo blo (bi, bj, bs) = (bi', bj', bs') \<Longrightarrow> alo \<le> bi \<Longrightarrow>
     alo \<le> bi' \<and> bi' + bs' = bi + bs"
proof (induction a b alo blo "(bi, bj, bs)" arbitrary: bi bj bs rule: extend_left.induct)
  case (1 a b alo blo besti bestj bestsize)
  show ?case
  proof (cases "alo < besti \<and> blo < bestj \<and> a ! (besti - 1) = b ! (bestj - 1)")
    case True
    then have "extend_left a b alo blo (besti - 1, bestj - 1, bestsize + 1) = (bi', bj', bs')"
      using "1.prems"(1) by (simp add: extend_left.simps [of a b alo blo besti])
    moreover have "alo \<le> besti - 1" using True by linarith
    ultimately have "alo \<le> bi' \<and> bi' + bs' = besti - 1 + (bestsize + 1)"
      using "1.hyps" [OF True] by blast
    then show ?thesis using True by simp
  next
    case False
    then show ?thesis using "1.prems" by (auto simp: extend_left.simps [of a b alo blo besti])
  qed
qed

lemma extend_right_bounds:
  "extend_right a b ahi bhi (bi, bj, bs) = (bi', bj', bs') \<Longrightarrow> bi + bs \<le> ahi \<Longrightarrow>
     bi' = bi \<and> bi' + bs' \<le> ahi"
proof (induction a b ahi bhi "(bi, bj, bs)" arbitrary: bi bj bs rule: extend_right.induct)
  case (1 a b ahi bhi besti bestj bestsize)
  show ?case
  proof (cases "besti + bestsize < ahi \<and> bestj + bestsize < bhi \<and> a ! (besti + bestsize) = b ! (bestj + bestsize)")
    case True
    then have "extend_right a b ahi bhi (besti, bestj, bestsize + 1) = (bi', bj', bs')"
      using "1.prems"(1) by (simp add: extend_right.simps [of a b ahi bhi besti])
    moreover have "besti + (bestsize + 1) \<le> ahi" using True by linarith
    ultimately show ?thesis using "1.hyps" [OF True] by blast
  next
    case False
    then show ?thesis using "1.prems" by (auto simp: extend_right.simps [of a b ahi bhi besti])
  qed
qed

lemma find_longest_match_bounds:
  assumes "find_longest_match a b b2j alo ahi blo bhi = (i, j, k)" "alo \<le> ahi"
  shows "alo \<le> i \<and> i + k \<le> ahi"
proof -
  obtain bi bj bs where o: "flm_outer a b2j blo bhi [alo..<ahi] (Map.empty, alo, blo, 0) = (bi, bj, bs)"
    by (metis prod_cases3)
  obtain ci cj cs where l: "extend_left a b alo blo (bi, bj, bs) = (ci, cj, cs)"
    by (metis prod_cases3)
  have r: "extend_right a b ahi bhi (ci, cj, cs) = (i, j, k)"
    using assms(1) o l by (simp add: find_longest_match_def)
  have 1: "alo \<le> bi \<and> bi + bs \<le> ahi"
    using flm_outer_bounds [where alo = alo, OF _ _ assms(2) _ _ o] by simp
  have 2: "alo \<le> ci \<and> ci + cs = bi + bs"
    using extend_left_bounds [OF l] 1 by simp
  show ?thesis
    using extend_right_bounds [OF r] 1 2 by simp
qed

lemma find_longest_match_empty:
  assumes "ahi \<le> alo"
  shows "find_longest_match a b b2j alo ahi blo bhi = (alo, blo, 0)"
proof -
  have "[alo..<ahi] = []" using assms by simp
  then show ?thesis using assms
    by (simp add: find_longest_match_def extend_left.simps [of a b alo blo alo]
          extend_right.simps [of a b ahi bhi alo])
qed


definition queue_weight :: "(nat \<times> nat \<times> nat \<times> nat) list \<Rightarrow> nat" where
  "queue_weight q = sum_list (map (\<lambda>(alo, ahi, blo, bhi). 2 * (ahi - alo) + 1) q)"

lemma queue_weight_push:
  assumes "find_longest_match a b b2j alo ahi blo bhi = (i, j, k)" "k \<noteq> 0"
  shows "queue_weight ((if i + k < ahi \<and> j + k < bhi then [(i + k, ahi, j + k, bhi)] else [])
           @ (if alo < i \<and> blo < j then [(alo, i, blo, j)] else []) @ queue)
         < queue_weight ((alo, ahi, blo, bhi) # queue)"
proof -
  have lt: "alo < ahi"
  proof (rule ccontr)
    assume "\<not> alo < ahi"
    then have "find_longest_match a b b2j alo ahi blo bhi = (alo, blo, 0)"
      by (simp add: find_longest_match_empty)
    then show False using assms by simp
  qed
  then have "alo \<le> i \<and> i + k \<le> ahi"
    using find_longest_match_bounds [OF assms(1)] by simp
  then show ?thesis using assms(2) by (auto simp: queue_weight_def)
qed

function mb_loop :: "'a list \<Rightarrow> 'a list \<Rightarrow> ('a \<rightharpoonup> nat list) \<Rightarrow> (nat \<times> nat \<times> nat \<times> nat) list \<Rightarrow>
    (nat \<times> nat \<times> nat) list \<Rightarrow> (nat \<times> nat \<times> nat) list" where
  "mb_loop a b b2j [] acc = acc"
| "mb_loop a b b2j ((alo, ahi, blo, bhi) # queue) acc =
     (case find_longest_match a b b2j alo ahi blo bhi of
        (i, j, k) \<Rightarrow>
          if k \<noteq> 0 then
            mb_loop a b b2j
              ((if i + k < ahi \<and> j + k < bhi then [(i + k, ahi, j + k, bhi)] else [])
               @ (if alo < i \<and> blo < j then [(alo, i, blo, j)] else []) @ queue)
              (acc @ [(i, j, k)])
          else mb_loop a b b2j queue acc)"
  by pat_completeness auto
termination
  apply (relation "measure (\<lambda>(a, b, b2j, queue, acc). queue_weight queue)")
    apply simp
   apply (simp only: in_measure prod.case)
   apply (rule queue_weight_push)
    apply simp
   apply simp
  apply (simp add: queue_weight_def)
  done

declare mb_loop.simps [simp del]

text \<open>The loop that merges adjacent blocks.\<close>

fun collapse :: "nat \<times> nat \<times> nat \<Rightarrow> (nat \<times> nat \<times> nat) list \<Rightarrow> (nat \<times> nat \<times> nat) list \<Rightarrow>
    (nat \<times> nat \<times> nat) list" where
  "collapse (i1, j1, k1) non_adjacent [] =
     (if k1 \<noteq> 0 then non_adjacent @ [(i1, j1, k1)] else non_adjacent)"
| "collapse (i1, j1, k1) non_adjacent ((i2, j2, k2) # rest) =
     (if i1 + k1 = i2 \<and> j1 + k1 = j2 then collapse (i1, j1, k1 + k2) non_adjacent rest
      else collapse (i2, j2, k2) (if k1 \<noteq> 0 then non_adjacent @ [(i1, j1, k1)] else non_adjacent) rest)"

definition get_matching_blocks :: "'a list \<Rightarrow> 'a list \<Rightarrow> (nat \<times> nat \<times> nat) list" where
  "get_matching_blocks a b =
     (let la = length a; lb = length b;
          matching_blocks = sort (mb_loop a b (chain_b b) [(0, la, 0, lb)] [])
      in collapse (0, 0, 0) [] matching_blocks @ [(la, lb, 0)])"

definition calculate_ratio :: "nat \<Rightarrow> nat \<Rightarrow> pyfloat" where
  "calculate_ratio matches len =
     (if len \<noteq> 0 then round_double (of_int (2 * int matches) / of_int (int len)) else Fin 1)"

definition ratio :: "'a list \<Rightarrow> 'a list \<Rightarrow> pyfloat" where
  "ratio a b =
     calculate_ratio (sum_list (map (\<lambda>(i, j, k). k) (get_matching_blocks a b))) (length a + length b)"

datatype tag = Replace | Delete | Insert | Equal

type_synonym opcode = "tag \<times> nat \<times> nat \<times> nat \<times> nat"

fun opcodes_loop :: "nat \<Rightarrow> nat \<Rightarrow> opcode list \<Rightarrow> (nat \<times> nat \<times> nat) list \<Rightarrow> opcode list" where
  "opcodes_loop i j answer [] = answer"
| "opcodes_loop i j answer ((ai, bj, sz) # blocks) =
     (let answer1 =
            (if i < ai \<and> j < bj then answer @ [(Replace, i, ai, j, bj)]
             else if i < ai then answer @ [(Delete, i, ai, j, bj)]
             else if j < bj then answer @ [(Insert, i, ai, j, bj)]
             else answer);
          answer2 = (if sz \<noteq> 0 then answer1 @ [(Equal, ai, ai + sz, bj, bj + sz)] else answer1)
      in opcodes_loop (ai + sz) (bj + sz) answer2 blocks)"

definition get_opcodes :: "'a list \<Rightarrow> 'a list \<Rightarrow> opcode list" where
  "get_opcodes a b = opcodes_loop 0 0 [] (get_matching_blocks a b)"

definition fix_first :: "nat \<Rightarrow> opcode list \<Rightarrow> opcode list" where
  "fix_first n codes =
     (case hd codes of
        (Equal, i1, i2, j1, j2) \<Rightarrow> codes[0 := (Equal, max i1 (i2 - n), i2, max j1 (j2 - n), j2)]
      | _ \<Rightarrow> codes)"

definition fix_last :: "nat \<Rightarrow> opcode list \<Rightarrow> opcode list" where
  "fix_last n codes =
     (case last codes of
        (Equal, i1, i2, j1, j2) \<Rightarrow>
          codes[length codes - 1 := (Equal, i1, min i2 (i1 + n), j1, min j2 (j1 + n))]
      | _ \<Rightarrow> codes)"

fun group_loop :: "nat \<Rightarrow> opcode list \<Rightarrow> opcode list list \<Rightarrow> opcode list \<Rightarrow> opcode list list" where
  "group_loop n grp out [] =
     (if grp \<noteq> [] \<and> \<not> (length grp = 1 \<and> fst (hd grp) = Equal) then out @ [grp] else out)"
| "group_loop n grp out ((t, i1, i2, j1, j2) # codes) =
     (if t = Equal \<and> n + n < i2 - i1
      then group_loop n [(t, max i1 (i2 - n), i2, max j1 (j2 - n), j2)]
             (out @ [grp @ [(t, i1, min i2 (i1 + n), j1, min j2 (j1 + n))]]) codes
      else group_loop n (grp @ [(t, i1, i2, j1, j2)]) out codes)"

definition get_grouped_opcodes :: "'a list \<Rightarrow> 'a list \<Rightarrow> nat \<Rightarrow> opcode list list" where
  "get_grouped_opcodes a b n =
     (let codes0 = get_opcodes a b;
          codes = (if codes0 = [] then [(Equal, 0, 1, 0, 1)] else codes0)
      in group_loop n [] [] (fix_last n (fix_first n codes)))"

definition str_of_int :: "int \<Rightarrow> string" where
  "str_of_int i = (if i < 0 then ''-'' @ str_of_nat (nat (- i)) else str_of_nat (nat i))"

definition format_range_unified :: "nat \<Rightarrow> nat \<Rightarrow> string" where
  "format_range_unified start stop =
     (let beginning = int start + 1; len = int stop - int start
      in if len = 1 then str_of_int beginning
         else str_of_int (if len = 0 then beginning - 1 else beginning) @ '','' @ str_of_int len)"

fun slice :: "'a list \<Rightarrow> nat \<Rightarrow> nat \<Rightarrow> 'a list" where
  "slice xs i j = take (j - i) (drop i xs)"

definition opcode_lines :: "string list \<Rightarrow> string list \<Rightarrow> opcode \<Rightarrow> string list" where
  "opcode_lines a b c =
     (case c of (t, i1, i2, j1, j2) \<Rightarrow>
        if t = Equal then map (\<lambda>line. '' '' @ line) (slice a i1 i2)
        else (if t = Replace \<or> t = Delete then map (\<lambda>line. ''-'' @ line) (slice a i1 i2) else [])
           @ (if t = Replace \<or> t = Insert then map (\<lambda>line. ''+'' @ line) (slice b j1 j2) else []))"

definition group_lines :: "string list \<Rightarrow> string list \<Rightarrow> opcode list \<Rightarrow> string list" where
  "group_lines a b grp =
     (case (hd grp, last grp) of
        ((t, f1, f2, f3, f4), (t', l1, l2, l3, l4)) \<Rightarrow>
          (''@@ -'' @ format_range_unified f1 l2 @ '' +'' @ format_range_unified f3 l4 @ '' @@'')
          # concat (map (opcode_lines a b) grp))"

definition unified_diff :: "string list \<Rightarrow> string list \<Rightarrow> string \<Rightarrow> string \<Rightarrow> nat \<Rightarrow> string list" where
  "unified_diff a b fromfile tofile n =
     (case get_grouped_opcodes a b n of
        [] \<Rightarrow> []
      | groups \<Rightarrow> (''--- '' @ fromfile) # (''+++ '' @ tofile) # concat (map (group_lines a b) groups))"


section \<open>Similarity scores and the record builder\<close>

text \<open>
  \<^verbatim>\<open>re.findall(r"\w+", s)\<close>: the scan skips to the next word character, takes the longest
  run of word characters there, and goes on after it.
\<close>

function findall_word :: "string \<Rightarrow> string list" where
  "findall_word s =
     (let r = dropWhile (\<lambda>c. \<not> is_word c) s
      in if r = [] then [] else takeWhile is_word r # findall_word (dropWhile is_word r))"
  by pat_completeness auto
termination
proof (relation "measure length", goal_cases)
  case 1
  show ?case by simp
next
  case (2 s r)
  have r: "r = dropWhile (\<lambda>c. \<not> is_word c) s" "r \<noteq> []" using 2 by simp_all
  from r(2) obtain c cs where c: "r = c # cs" by (meson neq_Nil_conv)
  have "\<not> \<not> is_word (hd r)" unfolding r(1) by (rule hd_dropWhile) (use r in simp)
  then have "is_word c" using c by simp
  then have "length (dropWhile is_word r) \<le> length cs"
    using c by (simp add: length_dropWhile_le)
  moreover have "length r \<le> length s" unfolding r(1) by (rule length_dropWhile_le)
  ultimately show ?case using c by simp
qed

declare findall_word.simps [simp del]

definition int_truediv :: "nat \<Rightarrow> nat \<Rightarrow> pyfloat" where
  "int_truediv m n = round_double (of_int (int m) / of_int (int n))"

definition similarity_scores :: "string \<Rightarrow> string \<Rightarrow> pyfloat \<times> pyfloat \<times> pyfloat" where
  "similarity_scores a b =
     (let sm_char = ratio a b;
          sm_line = ratio (splitlines a) (splitlines b);
          toks_a = set (findall_word (lower a));
          toks_b = set (findall_word (lower b));
          jacc = (if toks_a \<noteq> {} \<or> toks_b \<noteq> {}
                  then int_truediv (card (toks_a \<inter> toks_b)) (card (toks_a \<union> toks_b))
                  else Fin 1)
      in (sm_char, sm_line, jacc))"

definition endswith :: "string \<Rightarrow> string \<Rightarrow> bool" where
  "endswith s p \<longleftrightarrow> length p \<le> length s \<and> drop (length s - length p) s = p"

definition to_lines :: "string \<Rightarrow> bool \<Rightarrow> string list" where
  "to_lines s strip_ws =
     (if strip_ws then map (\<lambda>line. strip line @ [CHR 0x0A]) (splitlines s)
      else map (\<lambda>line. line @ (if \<not> endswith line [CHR 0x0A] then [CHR 0x0A] else []))
             (splitlines s))"

definition unified_diff_text :: "string list \<Rightarrow> string list \<Rightarrow> string \<Rightarrow> string \<Rightarrow> nat \<Rightarrow> string" where
  "unified_diff_text left_lines right_lines lname rname n_context =
     (let t = join [CHR 0x0A] (unified_diff left_lines right_lines lname rname n_context)
      in if t = [] then ''(no differences)'' else t)"

record source_names =
  left_name :: string
  right_name :: string

record stats =
  lines_left :: nat
  lines_right :: nat
  char_similarity :: pyfloat
  line_similarity :: pyfloat
  token_jaccard :: pyfloat
  percent_different_estimate :: pyfloat

record change_record =
  record_id :: string
  source :: source_names
  stats :: stats
  unified_diff_field :: string
  hunks :: "hunk list"
  heuristics :: heuristics

text \<open>
  The clock and the random identifier are inputs of the model: \<open>stamp\<close> is the text
  \<^verbatim>\<open>time.strftime\<close> returns and \<open>uuid_hex\<close> the text \<^verbatim>\<open>uuid.uuid4().hex\<close>.
\<close>

definition make_change_record ::
    "string \<Rightarrow> string \<Rightarrow> string \<Rightarrow> string \<Rightarrow> nat \<Rightarrow> bool \<Rightarrow> string \<Rightarrow> string \<Rightarrow>
     py_error + change_record" where
  "make_change_record left_text right_text lname rname n_context strip_ws stamp uuid_hex =
     (let left_lines = to_lines left_text strip_ws;
          right_lines = to_lines right_text strip_ws;
          uni = unified_diff_text left_lines right_lines lname rname n_context
      in case parse_unified_diff uni of
           Inl e \<Rightarrow> Inl e
         | Inr hs \<Rightarrow>
             (case similarity_scores left_text right_text of
                (sm_char, sm_line, jacc) \<Rightarrow>
                  Inr \<lparr>record_id = stamp @ ''_'' @ take 6 uuid_hex,
                       source = \<lparr>left_name = lname, right_name = rname\<rparr>,
                       stats = \<lparr>lines_left = length left_lines, lines_right = length right_lines,
                                char_similarity = py_round sm_char 4,
                                line_similarity = py_round sm_line 4,
                                token_jaccard = py_round jacc 4,
                                percent_different_estimate =
                                  py_round (pf_times_100 (pf_sub_from_one sm_char)) 2\<rparr>,
                       unified_diff_field = uni,
                       hunks = hs,
                       heuristics = simple_heuristics hs\<rparr>))"

section \<open>Properties of the matcher and the record builder\<close>


definition indices_of :: "'a \<Rightarrow> 'a list \<Rightarrow> nat list" where
  "indices_of x b = filter (\<lambda>j. b ! j = x) [0..<length b]"

lemma chain_b_index_fold:
  "fold (\<lambda>(i, elt) m. m(elt \<mapsto> (case m elt of None \<Rightarrow> [] | Some idxs \<Rightarrow> idxs) @ [i]))
       (enumerate k b) m x =
     (let new = map (\<lambda>j. j + k) (indices_of x b)
      in if new = [] then m x else Some ((case m x of None \<Rightarrow> [] | Some idxs \<Rightarrow> idxs) @ new))"
proof (induction b arbitrary: k m)
  case Nil
  show ?case by (simp add: indices_of_def)
next
  case (Cons y b)
  have upt: "[0..<Suc (length b)] = 0 # map Suc [0..<length b]"
    by (simp add: upt_conv_Cons map_Suc_upt del: upt_Suc)
  have idx: "indices_of x (y # b) = (if y = x then [0] else []) @ map Suc (indices_of x b)"
    unfolding indices_of_def length_Cons upt by (simp add: filter_map comp_def)
  show ?case
    unfolding enumerate_simps fold_Cons comp_apply Cons.IH idx
    by (auto simp: Let_def o_def)
qed

lemma chain_b_index_eq:
  "chain_b_index b x = (if indices_of x b = [] then None else Some (indices_of x b))"
  unfolding chain_b_index_def chain_b_index_fold by (simp add: Let_def)

lemma chain_b_Some:
  "chain_b b x = Some js \<Longrightarrow> js = indices_of x b \<and> js \<noteq> []"
  by (auto simp: chain_b_def chain_b_index_eq Let_def split: if_splits option.splits)

lemma indices_of_props:
  "sorted (indices_of x b)" "distinct (indices_of x b)"
  "j \<in> set (indices_of x b) \<longleftrightarrow> j < length b \<and> b ! j = x"
  by (auto simp: indices_of_def sorted_wrt_filter)

lemma chain_b_None_notin:
  "x \<notin> set b \<Longrightarrow> chain_b b x = None"
  by (auto simp: chain_b_def chain_b_index_eq Let_def indices_of_def filter_empty_conv in_set_conv_nth)

lemma chain_b_small:
  "length b < 200 \<Longrightarrow> chain_b b x = (if x \<in> set b then Some (indices_of x b) else None)"
  by (auto simp: chain_b_def chain_b_index_eq Let_def indices_of_def filter_empty_conv in_set_conv_nth)


definition word_runs :: "string \<Rightarrow> string set" where
  "word_runs s =
     {t. t \<noteq> [] \<and> (\<forall>c\<in>set t. is_word c) \<and>
         (\<exists>pre post. s = pre @ t @ post \<and> (pre = [] \<or> \<not> is_word (last pre))
            \<and> (post = [] \<or> \<not> is_word (hd post)))}"

lemma findall_word_runs_sub:
  "t \<in> set (findall_word s) \<Longrightarrow> t \<in> word_runs s"
proof (induction s arbitrary: t rule: length_induct)
  case (1 s)
  define p where "p = takeWhile (\<lambda>c. \<not> is_word c) s"
  define r where "r = dropWhile (\<lambda>c. \<not> is_word c) s"
  define t0 where "t0 = takeWhile is_word r"
  define q where "q = dropWhile is_word r"
  have s: "s = p @ t0 @ q" by (simp add: p_def r_def t0_def q_def)
  have rne: "r \<noteq> []" using "1.prems"
    by (subst (asm) findall_word.simps) (auto simp: r_def Let_def split: if_splits)
  have fa: "findall_word s = t0 # findall_word q"
    using rne by (subst findall_word.simps) (simp add: r_def t0_def q_def Let_def)
  have hdr: "is_word (hd r)" using hd_dropWhile [of "\<lambda>c. \<not> is_word c" s] rne by (simp add: r_def)
  have t0ne: "t0 \<noteq> []" using rne hdr by (cases r) (auto simp: t0_def)
  have t0w: "\<forall>c\<in>set t0. is_word c" by (auto simp: t0_def dest: set_takeWhileD)
  have pb: "p = [] \<or> \<not> is_word (last p)"
  proof (cases "p = []")
    case False
    then have "last p \<in> set p" by simp
    then show ?thesis by (auto simp: p_def dest: set_takeWhileD)
  qed simp
  have qb: "q = [] \<or> \<not> is_word (hd q)"
    using hd_dropWhile [of is_word r] by (auto simp: q_def)
  have lq: "length q < length s" using s t0ne by simp
  from "1.prems" fa consider "t = t0" | "t \<in> set (findall_word q)" by auto
  then show ?case
  proof cases
    case 1
    then show ?thesis using t0ne t0w s pb qb by (auto simp: word_runs_def)
  next
    case 2
    then have "t \<in> word_runs q" using "1.IH" lq by blast
    then obtain pre post where tq: "t \<noteq> []" "\<forall>c\<in>set t. is_word c" "q = pre @ t @ post"
      "pre = [] \<or> \<not> is_word (last pre)" "post = [] \<or> \<not> is_word (hd post)"
      by (auto simp: word_runs_def)
    have pne: "pre \<noteq> []"
    proof
      assume "pre = []"
      then have "hd q = hd t" "q \<noteq> []" using tq(1,3) by auto
      moreover have "is_word (hd t)" using tq(1,2) by (cases t) auto
      ultimately show False using qb by simp
    qed
    have "s = (p @ t0 @ pre) @ t @ post" using s tq(3) by simp
    moreover have "\<not> is_word (last (p @ t0 @ pre))" using pne tq(4) by simp
    ultimately show ?thesis using tq(1,2,5) unfolding word_runs_def by blast
  qed
qed

lemma findall_word_runs_sup:
  "t \<in> word_runs s \<Longrightarrow> t \<in> set (findall_word s)"
proof (induction s arbitrary: t rule: length_induct)
  case (1 s)
  then obtain pre post where tq: "t \<noteq> []" "\<forall>c\<in>set t. is_word c" "s = pre @ t @ post"
      "pre = [] \<or> \<not> is_word (last pre)" "post = [] \<or> \<not> is_word (hd post)"
    by (auto simp: word_runs_def)
  have hdt: "is_word (hd t)" using tq(1,2) by (cases t) auto
  define r where "r = dropWhile (\<lambda>c. \<not> is_word c) s"
  define t0 where "t0 = takeWhile is_word r"
  define q where "q = dropWhile is_word r"
  have tkt: "takeWhile is_word (t @ post) = t" "dropWhile is_word (t @ post) = post"
    using tq(2,5) by (cases post; simp)+
  show ?case
  proof (cases "\<forall>c\<in>set pre. \<not> is_word c")
    case True
    then have "r = t @ post" using tq(1,3) hdt unfolding r_def
      by (cases t) (simp_all add: dropWhile_append3)
    then have "findall_word s = t # findall_word post"
      using tq(1) tkt by (subst findall_word.simps) (simp add: r_def [symmetric] Let_def)
    then show ?thesis by simp
  next
    case False
    define pre1 where "pre1 = dropWhile (\<lambda>c. \<not> is_word c) pre"
    define pre2 where "pre2 = dropWhile is_word pre1"
    have pne: "pre \<noteq> []" using False by auto
    obtain c where c: "c \<in> set pre" "is_word c" using False by auto
    have r: "r = pre1 @ t @ post" unfolding r_def tq(3) pre1_def
      using dropWhile_append1 [of c pre "\<lambda>c. \<not> is_word c"] c by simp
    have p1ne: "pre1 \<noteq> []" using False by (auto simp: pre1_def dropWhile_eq_Nil_conv)
    have suf1: "\<exists>a. pre = a @ pre1" unfolding pre1_def by (metis takeWhile_dropWhile_id)
    then have l1: "last pre1 = last pre" using p1ne by auto
    then have nl1: "\<not> is_word (last pre1)" using tq(4) pne by simp
    have ex1: "\<exists>x\<in>set pre1. \<not> is_word x" using nl1 p1ne last_in_set by blast
    obtain d where d: "d \<in> set pre1" "\<not> is_word d" using ex1 by auto
    have q: "q = pre2 @ t @ post" unfolding q_def r pre2_def
      using dropWhile_append1 [of d pre1 is_word] d by simp
    have p2ne: "pre2 \<noteq> []" using ex1 by (auto simp: pre2_def dropWhile_eq_Nil_conv)
    have "\<exists>a. pre1 = a @ pre2" unfolding pre2_def by (metis takeWhile_dropWhile_id)
    then have "last pre2 = last pre1" using p2ne by auto
    then have "\<not> is_word (last pre2)" using nl1 by simp
    then have "t \<in> word_runs q" using tq(1,2,5) q unfolding word_runs_def by blast
    moreover have "length q < length s"
    proof -
      have "length pre2 < length pre1"
        using p1ne hd_dropWhile [of "\<lambda>c. \<not> is_word c" pre] unfolding pre2_def pre1_def [symmetric]
        by (cases pre1) (auto simp: pre1_def [symmetric] less_Suc_eq_le length_dropWhile_le)
      moreover have "length pre1 \<le> length pre" unfolding pre1_def by (rule length_dropWhile_le)
      ultimately show ?thesis using q tq(3) by simp
    qed
    ultimately have "t \<in> set (findall_word q)" using "1.IH" by blast
    moreover have "findall_word s = t0 # findall_word q"
      using p1ne r by (subst findall_word.simps) (simp add: r_def [symmetric] t0_def q_def Let_def)
    ultimately show ?thesis by simp
  qed
qed

lemma findall_word_runs: "set (findall_word s) = word_runs s"
  using findall_word_runs_sub findall_word_runs_sup by blast


text \<open>
  Claim C8.  The token score of \<^verbatim>\<open>similarity_scores\<close> is the quotient of the sizes of the
  intersection and of the union of the two token sets, as the float Python's division
  returns, and 1.0 when both sets are empty.  A token set is the set of the maximal runs
  of word characters of the lowercased text.  For \<^verbatim>\<open>"foo bar"\<close> and \<^verbatim>\<open>"bar baz"\<close> the score
  is the float of 1/3.
\<close>

theorem token_jaccard_quotient:
  "snd (snd (similarity_scores a b)) =
     (if word_runs (lower a) = {} \<and> word_runs (lower b) = {} then Fin 1
      else int_truediv (card (word_runs (lower a) \<inter> word_runs (lower b)))
             (card (word_runs (lower a) \<union> word_runs (lower b))))
   \<and> snd (snd (similarity_scores ''foo bar'' ''bar baz'')) = int_truediv 1 3
   \<and> int_truediv 1 3 = Fin (6004799503160661 / 18014398509481984)"
proof -
  have 1: "snd (snd (similarity_scores a b)) =
     (if word_runs (lower a) = {} \<and> word_runs (lower b) = {} then Fin 1
      else int_truediv (card (word_runs (lower a) \<inter> word_runs (lower b)))
             (card (word_runs (lower a) \<union> word_runs (lower b))))" for a b
    by (simp add: similarity_scores_def Let_def findall_word_runs)
  have fa: "findall_word (lower ''foo bar'') = [''foo'', ''bar'']"
    "findall_word (lower ''bar baz'') = [''bar'', ''baz'']"
    by code_simp+
  have i: "set [''foo'', ''bar''] \<inter> set [''bar'', ''baz''] = {''bar''}"
    "set [''foo'', ''bar''] \<union> set [''bar'', ''baz''] = {''foo'', ''bar'', ''baz''}"
    by auto
  have 2: "snd (snd (similarity_scores ''foo bar'' ''bar baz'')) = int_truediv 1 3"
    unfolding 1 findall_word_runs [symmetric] fa i by (simp add: eval_nat_numeral)
  have 3: "int_truediv 1 3 = Fin (6004799503160661 / 18014398509481984)"
    by code_simp
  show ?thesis using 1 2 3 by blast
qed

theorem token_jaccard_quotient_witness:
  "word_runs (lower ''A_1 b'') = {''a_1'', ''b''} \<and> word_runs (lower '' b?'') = {''b''}
   \<and> snd (snd (similarity_scores ''A_1 b'' '' b?'')) = Fin (1 / 2)
   \<and> word_runs (lower ''?!'') = {}
   \<and> snd (snd (similarity_scores ''?!'' [])) = Fin 1"
proof -
  have fa: "findall_word (lower ''A_1 b'') = [''a_1'', ''b'']" "findall_word (lower '' b?'') = [''b'']"
    "findall_word (lower ''?!'') = []" "findall_word (lower []) = []"
    by code_simp+
  have w: "word_runs (lower ''A_1 b'') = {''a_1'', ''b''}" "word_runs (lower '' b?'') = {''b''}"
    "word_runs (lower ''?!'') = {}" "word_runs (lower []) = {}"
    unfolding findall_word_runs [symmetric] fa by simp_all
  have i: "{''a_1'', ''b''} \<inter> {''b''} = {''b''}" "{''a_1'', ''b''} \<union> {''b''} = {''a_1'', ''b''}"
    by auto
  have h: "int_truediv (Suc 0) (Suc (Suc 0)) = Fin (1 / 2)" by code_simp
  show ?thesis
    using token_jaccard_quotient [of "''A_1 b''" "'' b?''"] token_jaccard_quotient [of "''?!''" "[]"]
    unfolding w i by (simp add: h)
qed

lemma make_change_record_eq:
  "make_change_record l r lnm rnm n sw stamp uu =
     (case parse_unified_diff (unified_diff_text (to_lines l sw) (to_lines r sw) lnm rnm n) of
        Inl e \<Rightarrow> Inl e
      | Inr hs \<Rightarrow>
          Inr \<lparr>record_id = stamp @ ''_'' @ take 6 uu,
               source = \<lparr>left_name = lnm, right_name = rnm\<rparr>,
               stats = \<lparr>lines_left = length (to_lines l sw), lines_right = length (to_lines r sw),
                        char_similarity = py_round (ratio l r) 4,
                        line_similarity = py_round (ratio (splitlines l) (splitlines r)) 4,
                        token_jaccard = py_round (snd (snd (similarity_scores l r))) 4,
                        percent_different_estimate =
                          py_round (pf_times_100 (pf_sub_from_one (ratio l r))) 2\<rparr>,
               unified_diff_field = unified_diff_text (to_lines l sw) (to_lines r sw) lnm rnm n,
               hunks = hs,
               heuristics = simple_heuristics hs\<rparr>)"
  by (simp add: make_change_record_def Let_def similarity_scores_def split: sum.splits)

lemma record_stats:
  assumes "make_change_record l r lnm rnm n sw stamp uu = Inr rec"
  shows "stats rec = \<lparr>lines_left = length (to_lines l sw), lines_right = length (to_lines r sw),
                        char_similarity = py_round (ratio l r) 4,
                        line_similarity = py_round (ratio (splitlines l) (splitlines r)) 4,
                        token_jaccard = py_round (snd (snd (similarity_scores l r))) 4,
                        percent_different_estimate =
                          py_round (pf_times_100 (pf_sub_from_one (ratio l r))) 2\<rparr>"
  using assms unfolding make_change_record_eq by (auto split: sum.splits)

lemma length_to_lines: "length (to_lines s sw) = length (splitlines s)"
  by (simp add: to_lines_def)

text \<open>
  Claim C7.  Two records built from the same texts, names, context count and whitespace
  flag have the same stats, unified diff, hunks and heuristics (and source); the
  identifier alone comes from the clock and the random source.  Whether a record is built
  does not depend on them either: the two calls raise the same error or both return.
\<close>

theorem record_idempotent:
  "(make_change_record l r lnm rnm n sw stamp1 uu1 = Inr r1
        \<and> make_change_record l r lnm rnm n sw stamp2 uu2 = Inr r2 \<longrightarrow>
       stats r1 = stats r2 \<and> unified_diff_field r1 = unified_diff_field r2
       \<and> hunks r1 = hunks r2 \<and> heuristics r1 = heuristics r2 \<and> source r1 = source r2
       \<and> record_id r1 = stamp1 @ ''_'' @ take 6 uu1 \<and> record_id r2 = stamp2 @ ''_'' @ take 6 uu2)
   \<and> (make_change_record l r lnm rnm n sw stamp1 uu1 = Inl e
        \<longleftrightarrow> make_change_record l r lnm rnm n sw stamp2 uu2 = Inl e)"
  unfolding make_change_record_eq by (auto split: sum.splits)

text \<open>
  Claim C10.  The similarity fields of the record are computed from the raw texts: the
  records built with and without whitespace stripping have the same character, line and
  token similarity and the same percentage (the whole stats entry is the same).
\<close>

theorem similarity_ignores_strip_ws:
  "make_change_record l r lnm rnm n True stamp uu = Inr r1
     \<and> make_change_record l r lnm rnm n False stamp uu = Inr r2 \<longrightarrow>
   char_similarity (stats r1) = char_similarity (stats r2)
   \<and> line_similarity (stats r1) = line_similarity (stats r2)
   \<and> token_jaccard (stats r1) = token_jaccard (stats r2)
   \<and> percent_different_estimate (stats r1) = percent_different_estimate (stats r2)
   \<and> stats r1 = stats r2"
  unfolding make_change_record_eq by (auto simp: length_to_lines split: sum.splits)


definition example_record :: "string \<Rightarrow> string \<Rightarrow> change_record" where
  "example_record rid deleted =
     \<lparr>record_id = rid,
      source = \<lparr>left_name = ''l'', right_name = ''r''\<rparr>,
      stats = \<lparr>lines_left = 1, lines_right = 1, char_similarity = Fin 0,
               line_similarity = Fin 0, token_jaccard = Fin 0,
               percent_different_estimate = Fin 100\<rparr>,
      unified_diff_field = ''--- l'' @ [CHR 0x0A] @ ''+++ r'' @ [CHR 0x0A] @ ''@@ -1 +1 @@'' @ [CHR 0x0A]
         @ ''-'' @ deleted @ [CHR 0x0A, CHR 0x0A] @ ''+b'' @ [CHR 0x0A],
      hunks = [\<lparr>old_start = 1, old_len = 1, new_start = 1, new_len = 1,
                ops = [\<lparr>op = ''del'', optext = deleted\<rparr>, \<lparr>op = ''add'', optext = ''b''\<rparr>],
                old_snippet = deleted, new_snippet = ''b''\<rparr>],
      heuristics = \<lparr>risk_flags = [], numeric_changes = [], removed_keywords = [],
                     added_keywords = []\<rparr>\<rparr>"

lemma ex1: "make_change_record ''a'' ''b'' ''l'' ''r'' 3 False ''t'' ''0123456789'' = Inr (example_record ''t_012345'' ''a'')"
  by code_simp

lemma ex2: "make_change_record ''a'' ''b'' ''l'' ''r'' 3 False ''u'' ''abcdefgh'' = Inr (example_record ''u_abcdef'' ''a'')"
  by code_simp

lemma ex3: "make_change_record '' a'' ''b'' ''l'' ''r'' 3 True ''t'' ''0123456789'' = Inr (example_record ''t_012345'' ''a'')"
  by code_simp

lemma ex4: "make_change_record '' a'' ''b'' ''l'' ''r'' 3 False ''t'' ''0123456789'' = Inr (example_record ''t_012345'' '' a'')"
  by code_simp

theorem record_idempotent_witness:
  "make_change_record ''a'' ''b'' ''l'' ''r'' 3 False ''t'' ''0123456789'' = Inr (example_record ''t_012345'' ''a'')
   \<and> make_change_record ''a'' ''b'' ''l'' ''r'' 3 False ''u'' ''abcdefgh'' = Inr (example_record ''u_abcdef'' ''a'')
   \<and> stats (example_record ''t_012345'' ''a'') = stats (example_record ''u_abcdef'' ''a'')
   \<and> hunks (example_record ''t_012345'' ''a'') = hunks (example_record ''u_abcdef'' ''a'')
   \<and> record_id (example_record ''t_012345'' ''a'') = ''t_012345''
   \<and> record_id (example_record ''u_abcdef'' ''a'') = ''u_abcdef''"
  using record_idempotent [of "''a''" "''b''" "''l''" "''r''" 3 False "''t''" "''0123456789''"
      "example_record ''t_012345'' ''a''" "''u''" "''abcdefgh''" "example_record ''u_abcdef'' ''a''"
      ValueError]
    ex1 ex2
  by (simp add: example_record_def)

theorem similarity_ignores_strip_ws_witness:
  "make_change_record '' a'' ''b'' ''l'' ''r'' 3 True ''t'' ''0123456789'' = Inr (example_record ''t_012345'' ''a'')
   \<and> make_change_record '' a'' ''b'' ''l'' ''r'' 3 False ''t'' ''0123456789'' = Inr (example_record ''t_012345'' '' a'')
   \<and> stats (example_record ''t_012345'' ''a'') = stats (example_record ''t_012345'' '' a'')
   \<and> hunks (example_record ''t_012345'' ''a'') \<noteq> hunks (example_record ''t_012345'' '' a'')"
  using similarity_ignores_strip_ws [of "'' a''" "''b''" "''l''" "''r''" 3 "''t''" "''0123456789''"
      "example_record ''t_012345'' ''a''" "example_record ''t_012345'' '' a''"]
    ex3 ex4
  by (simp add: example_record_def)


lemma flm_outer_None:
  "\<forall>i\<in>set is. b2j (a ! i) = None \<Longrightarrow> flm_outer a b2j blo bhi is (j2len, best) = best"
  by (induction "is" arbitrary: j2len) (auto split: prod.splits)

lemma extend_left_stop:
  "\<not> (alo < bi \<and> blo < bj \<and> a ! (bi - 1) = b ! (bj - 1)) \<Longrightarrow>
     extend_left a b alo blo (bi, bj, bs) = (bi, bj, bs)"
  by (subst extend_left.simps) auto

lemma extend_right_stop:
  "\<not> (bi + bs < ahi \<and> bj + bs < bhi \<and> a ! (bi + bs) = b ! (bj + bs)) \<Longrightarrow>
     extend_right a b ahi bhi (bi, bj, bs) = (bi, bj, bs)"
  by (subst extend_right.simps) auto

lemma one_common_head_blocks:
  assumes "x \<notin> set u" "x \<notin> set v" "set u \<inter> set v = {}"
  shows "get_matching_blocks (x # u) (x # v) = [(0, 0, 1), (Suc (length u), Suc (length v), 0)]"
proof -
  define a where "a = x # u"
  define b where "b = x # v"
  define la where "la = Suc (length u)"
  define lb where "lb = Suc (length v)"
  have idx: "indices_of x b = [0]"
  proof -
    have upt: "[0..<Suc (length v)] = 0 # map Suc [0..<length v]"
      by (simp add: upt_conv_Cons map_Suc_upt del: upt_Suc)
    show ?thesis unfolding indices_of_def b_def length_Cons upt using assms(2)
      by (auto simp: filter_map comp_def filter_empty_conv)
  qed
  have bx: "chain_b b x = Some [0]"
    by (simp add: chain_b_def chain_b_index_eq idx Let_def)
  have bn: "chain_b b (a ! i) = None" if "1 \<le> i" "i < la" for i
  proof -
    have "a ! i = u ! (i - 1)" using that by (simp add: a_def nth_Cons')
    moreover have "u ! (i - 1) \<in> set u" using that by (simp add: la_def)
    ultimately have "a ! i \<notin> set b" using assms(1,3) by (auto simp: b_def)
    then show ?thesis by (rule chain_b_None_notin)
  qed
  have rows: "\<forall>i\<in>set [1..<la]. chain_b b (a ! i) = None" using bn by simp
  have ne: "\<not> (1 < la \<and> 1 < lb \<and> a ! 1 = b ! 1)"
  proof
    assume h: "1 < la \<and> 1 < lb \<and> a ! 1 = b ! 1"
    then have "u \<noteq> []" "v \<noteq> []" "u ! 0 = v ! 0" by (auto simp: a_def b_def la_def lb_def)
    then have "u ! 0 \<in> set u" "u ! 0 \<in> set v" by (metis length_greater_0_conv nth_mem)+
    then show False using assms(3) by auto
  qed
  have a0: "a ! 0 = x" by (simp add: a_def)
  have up: "[0..<la] = 0 # [1..<la]" by (simp add: la_def upt_conv_Cons del: upt_Suc)
  have o1: "flm_outer a (chain_b b) 0 lb [0..<la] (Map.empty, 0, 0, 0) = (0, 0, 1)"
    unfolding up using rows a0
    by (simp add: bx lb_def flm_outer_None)
  have f1: "find_longest_match a b (chain_b b) 0 la 0 lb = (0, 0, 1)"
    unfolding find_longest_match_def o1 using ne
    by (simp add: extend_left_stop extend_right_stop)
  have o2: "flm_outer a (chain_b b) 1 lb [1..<la] (Map.empty, 1, 1, 0) = (1, 1, 0)"
    using rows by (simp add: flm_outer_None)
  have f2: "find_longest_match a b (chain_b b) 1 la 1 lb = (1, 1, 0)"
    unfolding find_longest_match_def o2 using ne
    by (simp add: extend_left_stop extend_right_stop)
  have f2': "find_longest_match a b (chain_b b) (Suc 0) la (Suc 0) lb = (Suc 0, Suc 0, 0)"
    using f2 by simp
  have mb: "mb_loop a b (chain_b b) [(0, la, 0, lb)] [] = [(0, 0, 1)]"
    by (simp add: mb_loop.simps f1 f2')
  have "get_matching_blocks a b = [(0, 0, 1), (la, lb, 0)]"
    unfolding get_matching_blocks_def Let_def
    using mb by (simp add: a_def b_def la_def lb_def)
  then show ?thesis by (simp add: a_def b_def la_def lb_def)
qed

lemma one_common_head_ratio:
  assumes "x \<notin> set u" "x \<notin> set v" "set u \<inter> set v = {}"
  shows "ratio (x # u) (x # v) = calculate_ratio 1 (length u + length v + 2)"
  by (simp add: ratio_def one_common_head_blocks [OF assms])


definition text_A :: string where
  "text_A = CHR ''x'' # replicate 159 CHR ''a''"

definition text_B :: string where
  "text_B = CHR ''x'' # replicate 159 CHR ''b''"

text \<open>
  Claim C2, as amended.  In a record that \<^verbatim>\<open>make_change_record\<close> built, the percentage is
  \<^verbatim>\<open>round((1 - c) * 100, 2)\<close> for the character ratio \<^verbatim>\<open>c\<close> as the matcher returned it,
  before rounding; the stored character similarity is \<^verbatim>\<open>round(c, 4)\<close>.
\<close>

theorem percent_from_unrounded_ratio:
  "make_change_record l r lnm rnm n sw stamp uu = Inr rec \<longrightarrow>
     percent_different_estimate (stats rec) = py_round (pf_times_100 (pf_sub_from_one (ratio l r))) 2
     \<and> char_similarity (stats rec) = py_round (ratio l r) 4"
  using record_stats [of l r lnm rnm n sw stamp uu rec] by simp

theorem percent_from_unrounded_ratio_witness:
  "make_change_record ''a'' ''b'' ''l'' ''r'' 3 False ''t'' ''0123456789'' = Inr (example_record ''t_012345'' ''a'')
   \<and> py_round (pf_times_100 (pf_sub_from_one (ratio ''a'' ''b''))) 2 = Fin 100
   \<and> py_round (ratio ''a'' ''b'') 4 = Fin 0"
  using percent_from_unrounded_ratio [of "''a''" "''b''" "''l''" "''r''" 3 False "''t''" "''0123456789''"
      "example_record ''t_012345'' ''a''"] ex1
  by (auto simp: example_record_def)

section \<open>A text compared with itself\<close>




















lemma parse_no_differences: "parse_unified_diff ''(no differences)'' = Inr []"
  by code_simp




section \<open>Hunks of the generated diff\<close>

text \<open>
  The hunks of a record are read back from the diff text that \<^verbatim>\<open>difflib.unified_diff\<close>
  wrote.  This section follows the text from the matcher to the parser: the longest match
  is a match, the matching blocks are increasing, the operations and their groups tile
  both sequences, each group is written as a header and body lines, and the parser reads
  each group back as one hunk.
\<close>

subsection \<open>The longest match is a match\<close>

definition best_ok :: "'a list \<Rightarrow> 'a list \<Rightarrow> nat \<Rightarrow> nat \<Rightarrow> nat \<Rightarrow> nat \<Rightarrow> nat \<times> nat \<times> nat \<Rightarrow> bool" where
  "best_ok a b alo ahi blo bhi m \<longleftrightarrow>
     (case m of (bi, bj, bs) \<Rightarrow>
        alo \<le> bi \<and> blo \<le> bj \<and> bi + bs \<le> ahi \<and> bj + bs \<le> bhi
        \<and> (\<forall>t<bs. a ! (bi + t) = b ! (bj + t)))"

definition row_ok :: "'a list \<Rightarrow> 'a list \<Rightarrow> nat \<Rightarrow> nat \<Rightarrow> nat \<Rightarrow> nat \<Rightarrow> (nat \<rightharpoonup> nat) \<Rightarrow> bool" where
  "row_ok a b alo blo bhi r j2len \<longleftrightarrow>
     (\<forall>j v. j2len j = Some v \<longrightarrow>
        v \<le> r - alo \<and> v \<le> j + 1 - blo \<and> blo \<le> j \<and> j < bhi
        \<and> (\<forall>t<v. a ! (r - 1 - t) = b ! (j - t)))"

text \<open>\<open>row_ok \<dots> r j2len\<close>: the table after the rows below \<open>r\<close>, that is of row \<open>r - 1\<close>.\<close>

lemma flm_inner_ok:
  assumes prev: "row_ok a b alo blo bhi i j2len" and i: "alo \<le> i"
    and js: "\<forall>j\<in>set js. b ! j = a ! i"
    and nj: "row_ok a b alo blo bhi (Suc i) nj"
    and best: "best_ok a b alo (Suc i) blo bhi (bi, bj, bs)"
    and res: "flm_inner blo bhi i j2len js (nj, bi, bj, bs) = (nj', m)"
  shows "row_ok a b alo blo bhi (Suc i) nj' \<and> best_ok a b alo (Suc i) blo bhi m"
  using js nj best res
proof (induction js arbitrary: nj bi bj bs)
  case Nil
  then show ?case by simp
next
  case (Cons j js)
  show ?case
  proof (cases "j < blo")
    case True
    then show ?thesis using Cons by simp
  next
    case nlo: False
    show ?thesis
    proof (cases "bhi \<le> j")
      case True
      then show ?thesis using Cons.prems nlo by simp
    next
      case nhi: False
      define p where "p = (case j of 0 \<Rightarrow> 0 | Suc j' \<Rightarrow> (case j2len j' of None \<Rightarrow> 0 | Some v \<Rightarrow> v))"
      define k where "k = p + 1"
      have bj: "b ! j = a ! i" using Cons.prems(1) by simp
      have p: "p \<le> i - alo \<and> p \<le> j - blo \<and> (\<forall>t<p. a ! (i - 1 - t) = b ! (j - 1 - t))"
      proof (cases j)
        case 0
        then show ?thesis by (simp add: p_def)
      next
        case (Suc j')
        show ?thesis
        proof (cases "j2len j'")
          case None
          then show ?thesis using Suc by (simp add: p_def)
        next
          case (Some v)
          then have "v \<le> i - alo \<and> v \<le> j' + 1 - blo \<and> blo \<le> j' \<and> (\<forall>t<v. a ! (i - 1 - t) = b ! (j' - t))"
            using prev by (auto simp: row_ok_def)
          then show ?thesis using Suc Some by (auto simp: p_def)
        qed
      qed
      have km: "\<forall>t<k. a ! (i - t) = b ! (j - t)"
      proof (intro allI impI)
        fix t assume t: "t < k"
        show "a ! (i - t) = b ! (j - t)"
        proof (cases t)
          case 0
          then show ?thesis using bj by simp
        next
          case (Suc t')
          then have t': "t' < p" using t by (simp add: k_def)
          then have "a ! (i - 1 - t') = b ! (j - 1 - t')" using p by simp
          then show ?thesis using Suc by simp
        qed
      qed
      have kb: "k \<le> Suc i - alo" "k \<le> j + 1 - blo"
        using p i nlo by (auto simp: k_def)
      have nj2: "row_ok a b alo blo bhi (Suc i) (nj(j \<mapsto> k))"
        using Cons.prems(2) kb km nlo nhi by (auto simp: row_ok_def)
      show ?thesis
      proof (cases "bs < k")
        case True
        have r: "flm_inner blo bhi i j2len js (nj(j \<mapsto> k), i + 1 - k, j + 1 - k, k) = (nj', m)"
          using Cons.prems(4) nlo nhi True by (simp add: k_def p_def Let_def)
        have "\<forall>t<k. a ! (i + 1 - k + t) = b ! (j + 1 - k + t)"
        proof (intro allI impI)
          fix t assume t: "t < k"
          define t' where "t' = k - 1 - t"
          have "t' < k" using t by (simp add: t'_def)
          then have e: "a ! (i - t') = b ! (j - t')" using km by blast
          have "i - t' = i + 1 - k + t" "j - t' = j + 1 - k + t"
            using t kb i nlo by (auto simp: t'_def)
          then show "a ! (i + 1 - k + t) = b ! (j + 1 - k + t)" using e by metis
        qed
        then have "best_ok a b alo (Suc i) blo bhi (i + 1 - k, j + 1 - k, k)"
          using kb i nlo nhi by (auto simp: best_ok_def)
        then show ?thesis using Cons.IH [OF _ nj2 _ r] Cons.prems(1) by simp
      next
        case False
        have r: "flm_inner blo bhi i j2len js (nj(j \<mapsto> k), bi, bj, bs) = (nj', m)"
          using Cons.prems(4) nlo nhi False by (simp add: k_def p_def Let_def)
        show ?thesis using Cons.IH [OF _ nj2 Cons.prems(3) r] Cons.prems(1) by simp
      qed
    qed
  qed
qed

lemma best_ok_mono: "best_ok a b alo ahi blo bhi m \<Longrightarrow> ahi \<le> ahi' \<Longrightarrow> best_ok a b alo ahi' blo bhi m"
  by (auto simp: best_ok_def)

lemma flm_outer_ok:
  assumes b2j: "\<And>x js. b2j x = Some js \<Longrightarrow> \<forall>j\<in>set js. b ! j = x"
    and "row_ok a b alo blo bhi i j2len" "alo \<le> i" "i \<le> ahi"
    and "best_ok a b alo i blo bhi m"
  shows "best_ok a b alo ahi blo bhi (flm_outer a b2j blo bhi [i..<ahi] (j2len, m))"
  using assms(2-)
proof (induction "ahi - i" arbitrary: i j2len m)
  case 0
  then show ?case by simp
next
  case (Suc d)
  then have lt: "i < ahi" by simp
  then have up: "[i..<ahi] = i # [Suc i..<ahi]" by (simp add: upt_conv_Cons)
  define js where "js = (case b2j (a ! i) of None \<Rightarrow> [] | Some js \<Rightarrow> js)"
  have js: "\<forall>j\<in>set js. b ! j = a ! i"
  proof (cases "b2j (a ! i)")
    case None
    then show ?thesis by (simp add: js_def)
  next
    case (Some l)
    then show ?thesis using b2j [OF Some] by (simp add: js_def)
  qed
  obtain bi bj bs where m: "m = (bi, bj, bs)" by (cases m) auto
  obtain nj m' where inner: "flm_inner blo bhi i j2len js (Map.empty, bi, bj, bs) = (nj, m')"
    by (metis surj_pair)
  have e: "row_ok a b alo blo bhi (Suc i) Map.empty" by (simp add: row_ok_def)
  have b0: "best_ok a b alo (Suc i) blo bhi (bi, bj, bs)"
    using Suc.prems(4) m best_ok_mono by fastforce
  have ok: "row_ok a b alo blo bhi (Suc i) nj \<and> best_ok a b alo (Suc i) blo bhi m'"
    by (rule flm_inner_ok [OF Suc.prems(1,2) js e b0 inner])
  have "flm_outer a b2j blo bhi [i..<ahi] (j2len, m) = flm_outer a b2j blo bhi [Suc i..<ahi] (nj, m')"
    unfolding up using inner by (simp add: js_def m)
  moreover have "d = ahi - Suc i" using Suc.hyps(2) by simp
  ultimately show ?case
    using Suc.hyps(1) [of "Suc i" nj m'] ok Suc.prems(2) lt by simp
qed

lemma extend_left_ok:
  "best_ok a b alo ahi blo bhi m \<Longrightarrow> best_ok a b alo ahi blo bhi (extend_left a b alo blo m)"
proof (induction a b alo blo m rule: extend_left.induct)
  case (1 a b alo blo besti bestj bestsize)
  show ?case
  proof (cases "alo < besti \<and> blo < bestj \<and> a ! (besti - 1) = b ! (bestj - 1)")
    case True
    have "\<forall>t<bestsize + 1. a ! (besti - 1 + t) = b ! (bestj - 1 + t)"
    proof (intro allI impI)
      fix t assume "t < bestsize + 1"
      then show "a ! (besti - 1 + t) = b ! (bestj - 1 + t)"
        using True "1.prems" by (cases t) (auto simp: best_ok_def)
    qed
    then have "best_ok a b alo ahi blo bhi (besti - 1, bestj - 1, bestsize + 1)"
      using True "1.prems" by (auto simp: best_ok_def)
    then show ?thesis using "1.IH" True by (subst extend_left.simps) simp
  next
    case False
    then show ?thesis using "1.prems" by (subst extend_left.simps) auto
  qed
qed

lemma extend_right_ok:
  "best_ok a b alo ahi blo bhi m \<Longrightarrow> best_ok a b alo ahi blo bhi (extend_right a b ahi bhi m)"
proof (induction a b ahi bhi m rule: extend_right.induct)
  case (1 a b ahi bhi besti bestj bestsize)
  show ?case
  proof (cases "besti + bestsize < ahi \<and> bestj + bestsize < bhi \<and> a ! (besti + bestsize) = b ! (bestj + bestsize)")
    case True
    have "\<forall>t<bestsize + 1. a ! (besti + t) = b ! (bestj + t)"
      using True "1.prems" by (auto simp: best_ok_def less_Suc_eq)
    then have "best_ok a b alo ahi blo bhi (besti, bestj, bestsize + 1)"
      using True "1.prems" by (auto simp: best_ok_def)
    then show ?thesis using "1.IH" True by (subst extend_right.simps) simp
  next
    case False
    then show ?thesis using "1.prems" by (subst extend_right.simps) auto
  qed
qed

lemma chain_b_ok: "chain_b b x = Some js \<Longrightarrow> \<forall>j\<in>set js. b ! j = x"
  using chain_b_Some [of b x js] by (auto simp: indices_of_props)

lemma find_longest_match_ok:
  assumes "alo \<le> ahi" "blo \<le> bhi"
  shows "best_ok a b alo ahi blo bhi (find_longest_match a b (chain_b b) alo ahi blo bhi)"
proof -
  have 0: "best_ok a b alo alo blo bhi (alo, blo, 0)" using assms by (simp add: best_ok_def)
  have "best_ok a b alo ahi blo bhi (flm_outer a (chain_b b) blo bhi [alo..<ahi] (Map.empty, alo, blo, 0))"
    by (rule flm_outer_ok [OF chain_b_ok _ _ assms(1) 0]) (simp_all add: row_ok_def)
  then show ?thesis
    unfolding find_longest_match_def by (intro extend_right_ok extend_left_ok)
qed

subsection \<open>The matching blocks are increasing\<close>

text \<open>Blocks and queue entries as rectangles \<open>(i1, i2, j1, j2)\<close> of the comparison table.\<close>

definition block_rect :: "nat \<times> nat \<times> nat \<Rightarrow> nat \<times> nat \<times> nat \<times> nat" where
  "block_rect m = (case m of (i, j, k) \<Rightarrow> (i, i + k, j, j + k))"

definition rect_before :: "nat \<times> nat \<times> nat \<times> nat \<Rightarrow> nat \<times> nat \<times> nat \<times> nat \<Rightarrow> bool" where
  "rect_before x y \<longleftrightarrow>
     (case x of (i1, i2, j1, j2) \<Rightarrow> case y of (i1', i2', j1', j2') \<Rightarrow> i2 \<le> i1' \<and> j2 \<le> j1')"

definition comparable :: "nat \<times> nat \<times> nat \<times> nat \<Rightarrow> nat \<times> nat \<times> nat \<times> nat \<Rightarrow> bool" where
  "comparable x y \<longleftrightarrow> rect_before x y \<or> rect_before y x"

definition inside :: "nat \<times> nat \<times> nat \<times> nat \<Rightarrow> nat \<times> nat \<times> nat \<times> nat \<Rightarrow> bool" where
  "inside x r \<longleftrightarrow>
     (case x of (i1, i2, j1, j2) \<Rightarrow> case r of (alo, ahi, blo, bhi) \<Rightarrow>
        alo \<le> i1 \<and> i1 \<le> i2 \<and> i2 \<le> ahi \<and> blo \<le> j1 \<and> j1 \<le> j2 \<and> j2 \<le> bhi)"

definition good_block :: "'a list \<Rightarrow> 'a list \<Rightarrow> nat \<times> nat \<times> nat \<Rightarrow> bool" where
  "good_block a b m \<longleftrightarrow>
     (case m of (i, j, k) \<Rightarrow> 0 < k \<and> i + k \<le> length a \<and> j + k \<le> length b
        \<and> (\<forall>t<k. a ! (i + t) = b ! (j + t)))"

definition good_region :: "'a list \<Rightarrow> 'a list \<Rightarrow> nat \<times> nat \<times> nat \<times> nat \<Rightarrow> bool" where
  "good_region a b r \<longleftrightarrow>
     (case r of (alo, ahi, blo, bhi) \<Rightarrow> alo \<le> ahi \<and> ahi \<le> length a \<and> blo \<le> bhi \<and> bhi \<le> length b)"

lemma comparable_sym: "comparable x y \<Longrightarrow> comparable y x"
  by (auto simp: comparable_def)

lemma comparable_inside:
  "comparable y r \<Longrightarrow> inside x r \<Longrightarrow> comparable y x"
  by (cases x; cases y; cases r) (auto simp: comparable_def rect_before_def inside_def)

lemma comparable_inside2:
  "comparable r y \<Longrightarrow> inside x r \<Longrightarrow> comparable x y"
  using comparable_inside comparable_sym by blast

lemma mb_loop_inv:
  assumes "sorted_wrt comparable (map block_rect acc @ queue)"
    and "\<forall>m\<in>set acc. good_block a b m" "\<forall>r\<in>set queue. good_region a b r"
  shows "sorted_wrt comparable (map block_rect (mb_loop a b (chain_b b) queue acc))
       \<and> (\<forall>m\<in>set (mb_loop a b (chain_b b) queue acc). good_block a b m)"
  using assms
proof (induction a b "chain_b b" queue acc rule: mb_loop.induct)
  case (1 a b acc)
  then show ?case by (simp add: mb_loop.simps)
next
  case (2 a b alo ahi blo bhi queue acc)
  obtain i j k where f: "find_longest_match a b (chain_b b) alo ahi blo bhi = (i, j, k)"
    by (metis prod_cases3)
  have reg: "alo \<le> ahi" "ahi \<le> length a" "blo \<le> bhi" "bhi \<le> length b"
    using "2.prems"(3) by (auto simp: good_region_def)
  have ok: "alo \<le> i" "blo \<le> j" "i + k \<le> ahi" "j + k \<le> bhi" "\<forall>t<k. a ! (i + t) = b ! (j + t)"
    using find_longest_match_ok [OF reg(1,3), of a b] f by (auto simp: best_ok_def)
  show ?case
  proof (cases "k = 0")
    case True
    have s: "sorted_wrt comparable (map block_rect acc @ queue)"
      using "2.prems"(1) by (auto simp: sorted_wrt_append)
    have q: "\<forall>r\<in>set queue. good_region a b r" using "2.prems"(3) by simp
    have nk: "\<not> k \<noteq> 0" using True by simp
    show ?thesis
      using "2.hyps"(2) [OF f [symmetric] refl nk s "2.prems"(2) q] True f
      by (simp add: mb_loop.simps)
  next
    case False
    define news where "news = (if i + k < ahi \<and> j + k < bhi then [(i + k, ahi, j + k, bhi)] else [])
               @ (if alo < i \<and> blo < j then [(alo, i, blo, j)] else [])"
    have ins: "inside (block_rect (i, j, k)) (alo, ahi, blo, bhi)" "\<forall>n\<in>set news. inside n (alo, ahi, blo, bhi)"
      using ok by (auto simp: inside_def block_rect_def news_def)
    have mut: "sorted_wrt comparable (block_rect (i, j, k) # news)"
      by (auto simp: news_def comparable_def rect_before_def block_rect_def)
    have A: "sorted_wrt comparable (map block_rect acc)" "sorted_wrt comparable queue"
      "\<forall>x\<in>set acc. comparable (block_rect x) (alo, ahi, blo, bhi)"
      "\<forall>x\<in>set acc. \<forall>y\<in>set queue. comparable (block_rect x) y"
      "\<forall>y\<in>set queue. comparable (alo, ahi, blo, bhi) y"
      using "2.prems"(1) by (auto simp: sorted_wrt_append)
    have srt: "sorted_wrt comparable (map block_rect (acc @ [(i, j, k)]) @ (news @ queue))"
      using A mut ins
      by (auto simp: sorted_wrt_append intro: comparable_inside comparable_inside2)
    have gb: "\<forall>m\<in>set (acc @ [(i, j, k)]). good_block a b m"
      using "2.prems"(2) ok False reg by (auto simp: good_block_def)
    have gr: "\<forall>r\<in>set (news @ queue). good_region a b r"
      using "2.prems"(3) ok reg by (auto simp: good_region_def news_def)
    have "mb_loop a b (chain_b b) ((alo, ahi, blo, bhi) # queue) acc
        = mb_loop a b (chain_b b) (news @ queue) (acc @ [(i, j, k)])"
      using False f by (simp add: mb_loop.simps news_def)
    then show ?thesis
      using "2.hyps"(1) [OF f [symmetric] refl False srt [unfolded news_def append_assoc] gb gr [unfolded news_def append_assoc]]
      by (simp add: news_def)
  qed
qed

definition blk_before :: "nat \<times> nat \<times> nat \<Rightarrow> nat \<times> nat \<times> nat \<Rightarrow> bool" where
  "blk_before m m' \<longleftrightarrow> (case m of (i, j, k) \<Rightarrow> case m' of (i', j', k') \<Rightarrow> i + k \<le> i' \<and> j + k \<le> j')"

lemma sorted_wrt_sym_pair:
  assumes "sorted_wrt P xs" "\<And>x y. P x y \<Longrightarrow> P y x" "x \<in> set xs" "y \<in> set xs" "x \<noteq> y"
  shows "P x y"
  using assms(1,3,4,5)
proof (induction xs)
  case Nil
  then show ?case by simp
next
  case (Cons z zs)
  then show ?case using assms(2) by auto
qed

lemma sorted_wrt_irrefl_distinct:
  assumes "sorted_wrt P xs" "\<forall>x\<in>set xs. \<not> P x x"
  shows "distinct xs"
  using assms by (induction xs) auto

lemma block_rect_inj: "block_rect x = block_rect y \<Longrightarrow> x = y"
  by (cases x; cases y) (auto simp: block_rect_def)

lemma sort_blocks:
  assumes "sorted_wrt comparable (map block_rect acc)" "\<forall>m\<in>set acc. good_block a b m"
  shows "sorted_wrt blk_before (sort acc)"
proof -
  have irr: "\<forall>x\<in>set (map block_rect acc). \<not> comparable x x"
    using assms(2) by (auto simp: comparable_def rect_before_def block_rect_def good_block_def)
  have "distinct (map block_rect acc)"
    by (rule sorted_wrt_irrefl_distinct [OF assms(1) irr])
  then have d: "distinct acc" by (simp add: distinct_map)
  have cmp: "comparable (block_rect x) (block_rect y)"
    if "x \<in> set acc" "y \<in> set acc" "x \<noteq> y" for x y
  proof (rule sorted_wrt_sym_pair [OF assms(1) comparable_sym])
    show "block_rect x \<in> set (map block_rect acc)" "block_rect y \<in> set (map block_rect acc)"
      using that by simp_all
    show "block_rect x \<noteq> block_rect y" using that(3) block_rect_inj by blast
  qed
  have "sorted_wrt (<) (sort acc)"
    using d by (simp add: strict_sorted_iff)
  moreover have "blk_before x y" if "x \<in> set (sort acc)" "y \<in> set (sort acc)" "x < y" for x y
  proof -
    obtain i j k i' j' k' where xy: "x = (i, j, k)" "y = (i', j', k')"
      by (metis prod_cases3)
    have "comparable (block_rect x) (block_rect y)" using cmp that by auto
    moreover have "0 < k'" "0 < k" using assms(2) that xy by (auto simp: good_block_def)
    moreover have "i \<le> i'" using that(3) xy by (auto simp: less_prod_def)
    ultimately show ?thesis
      by (auto simp: comparable_def rect_before_def block_rect_def blk_before_def xy)
  qed
  ultimately show ?thesis by (rule sorted_wrt_mono_rel [rotated])
qed

definition block_chain :: "'a list \<Rightarrow> 'a list \<Rightarrow> (nat \<times> nat \<times> nat) list \<Rightarrow> bool" where
  "block_chain a b ms \<longleftrightarrow> sorted_wrt blk_before ms \<and> (\<forall>m\<in>set ms. good_block a b m)"

lemma collapse_chain:
  assumes "block_chain a b (non_adjacent @ (if k1 \<noteq> 0 then [(i1, j1, k1)] else []) @ rest)"
  shows "block_chain a b (collapse (i1, j1, k1) non_adjacent rest)"
  using assms
proof (induction rest arbitrary: i1 j1 k1 non_adjacent)
  case Nil
  then show ?case by (cases "k1 = 0") simp_all
next
  case (Cons m rest)
  obtain i2 j2 k2 where m: "m = (i2, j2, k2)" by (metis prod_cases3)
  show ?case
  proof (cases "i1 + k1 = i2 \<and> j1 + k1 = j2")
    case True
    have "block_chain a b (non_adjacent @ (if k1 + k2 \<noteq> 0 then [(i1, j1, k1 + k2)] else []) @ rest)"
    proof (cases "k1 = 0")
      case z: True
      then show ?thesis using Cons.prems True m by (auto simp: block_chain_def good_block_def)
    next
      case False
      have g1: "good_block a b (i1, j1, k1)" "good_block a b (i2, j2, k2)"
        using Cons.prems False m by (auto simp: block_chain_def)
      have "\<forall>t<k1 + k2. a ! (i1 + t) = b ! (j1 + t)"
      proof (intro allI impI)
        fix t assume t: "t < k1 + k2"
        show "a ! (i1 + t) = b ! (j1 + t)"
        proof (cases "t < k1")
          case True
          then show ?thesis using g1(1) by (simp add: good_block_def)
        next
          case nt: False
          then have "t - k1 < k2" using t by simp
          then have e: "a ! (i2 + (t - k1)) = b ! (j2 + (t - k1))" using g1(2) by (simp add: good_block_def)
          have "i2 + (t - k1) = i1 + t" "j2 + (t - k1) = j1 + t" using True nt by auto
          then show ?thesis using e by metis
        qed
      qed
      then have g: "good_block a b (i1, j1, k1 + k2)"
        using g1 True by (auto simp: good_block_def)
      show ?thesis
        using Cons.prems False True m g
        by (auto simp: block_chain_def sorted_wrt_append blk_before_def)
    qed
    then have "block_chain a b (collapse (i1, j1, k1 + k2) non_adjacent rest)"
      by (rule Cons.IH)
    then show ?thesis using True m by simp
  next
    case False
    have c: "block_chain a b ((if k1 \<noteq> 0 then non_adjacent @ [(i1, j1, k1)] else non_adjacent)
          @ (if k2 \<noteq> 0 then [(i2, j2, k2)] else []) @ rest)"
      using Cons.prems m by (auto simp: block_chain_def good_block_def)
    have step: "collapse (i1, j1, k1) non_adjacent (m # rest) =
        collapse (i2, j2, k2) (if k1 \<noteq> 0 then non_adjacent @ [(i1, j1, k1)] else non_adjacent) rest"
      using False m by auto
    show ?thesis unfolding step by (rule Cons.IH) (rule c)
  qed
qed

lemma get_matching_blocks_chain:
  "\<exists>ms. get_matching_blocks a b = ms @ [(length a, length b, 0)] \<and> block_chain a b ms"
proof -
  define acc where "acc = mb_loop a b (chain_b b) [(0, length a, 0, length b)] []"
  have "sorted_wrt comparable (map block_rect acc) \<and> (\<forall>m\<in>set acc. good_block a b m)"
    unfolding acc_def by (rule mb_loop_inv) (simp_all add: good_region_def)
  then have s: "block_chain a b (sort acc)"
    using sort_blocks [of acc a b] by (simp add: block_chain_def)
  have "block_chain a b (collapse (0, 0, 0) [] (sort acc))"
    by (rule collapse_chain) (use s in simp)
  then show ?thesis
    by (simp add: get_matching_blocks_def Let_def acc_def)
qed

subsection \<open>Operations and groups\<close>

definition valid_code :: "'a list \<Rightarrow> 'a list \<Rightarrow> opcode \<Rightarrow> bool" where
  "valid_code a b c \<longleftrightarrow>
     (case c of (t, i1, i2, j1, j2) \<Rightarrow>
        i1 \<le> i2 \<and> j1 \<le> j2 \<and> i2 \<le> length a \<and> j2 \<le> length b
        \<and> (t = Equal \<longrightarrow> i2 - i1 = j2 - j1 \<and> (\<forall>x<i2 - i1. a ! (i1 + x) = b ! (j1 + x)))
        \<and> (t = Delete \<longrightarrow> j1 = j2) \<and> (t = Insert \<longrightarrow> i1 = i2))"

fun linked_from :: "nat \<Rightarrow> nat \<Rightarrow> opcode list \<Rightarrow> bool" where
  "linked_from i j [] = True"
| "linked_from i j ((t, i1, i2, j1, j2) # cs) = (i1 = i \<and> j1 = j \<and> linked_from i2 j2 cs)"

fun code_end :: "nat \<Rightarrow> nat \<Rightarrow> opcode list \<Rightarrow> nat \<times> nat" where
  "code_end i j [] = (i, j)"
| "code_end i j ((t, i1, i2, j1, j2) # cs) = code_end i2 j2 cs"

lemma code_end_append:
  "code_end i j (xs @ ys) = (case code_end i j xs of (i', j') \<Rightarrow> code_end i' j' ys)"
  by (induction xs arbitrary: i j) auto

lemma linked_from_append:
  "linked_from i j (xs @ ys) \<longleftrightarrow>
     linked_from i j xs \<and> (case code_end i j xs of (i', j') \<Rightarrow> linked_from i' j' ys)"
  by (induction xs arbitrary: i j) auto

definition block_ok :: "'a list \<Rightarrow> 'a list \<Rightarrow> nat \<times> nat \<times> nat \<Rightarrow> bool" where
  "block_ok a b m \<longleftrightarrow>
     (case m of (i, j, k) \<Rightarrow> i + k \<le> length a \<and> j + k \<le> length b
        \<and> (\<forall>t<k. a ! (i + t) = b ! (j + t)))"

lemma opcodes_loop_valid:
  assumes "linked_from i0 j0 answer" "code_end i0 j0 answer = (i, j)" "\<forall>c\<in>set answer. valid_code a b c"
    and "sorted_wrt blk_before blocks" "\<forall>m\<in>set blocks. block_ok a b m"
    and "\<forall>m\<in>set blocks. i \<le> fst m \<and> j \<le> fst (snd m)"
  shows "linked_from i0 j0 (opcodes_loop i j answer blocks)
       \<and> (\<forall>c\<in>set (opcodes_loop i j answer blocks). valid_code a b c)"
  using assms
proof (induction blocks arbitrary: i j answer)
  case Nil
  then show ?case by simp
next
  case (Cons m blocks)
  obtain ai bj sz where m: "m = (ai, bj, sz)" by (metis prod_cases3)
  have le: "i \<le> ai" "j \<le> bj" using Cons.prems(6) m by auto
  have bo: "ai + sz \<le> length a" "bj + sz \<le> length b" "\<forall>t<sz. a ! (ai + t) = b ! (bj + t)"
    using Cons.prems(5) m by (auto simp: block_ok_def)
  define answer1 where "answer1 =
            (if i < ai \<and> j < bj then answer @ [(Replace, i, ai, j, bj)]
             else if i < ai then answer @ [(Delete, i, ai, j, bj)]
             else if j < bj then answer @ [(Insert, i, ai, j, bj)]
             else answer)"
  define answer2 where "answer2 = (if sz \<noteq> 0 then answer1 @ [(Equal, ai, ai + sz, bj, bj + sz)] else answer1)"
  have a1: "linked_from i0 j0 answer1" "code_end i0 j0 answer1 = (ai, bj)" "\<forall>c\<in>set answer1. valid_code a b c"
    using Cons.prems(1,2,3) le bo
    by (auto simp: answer1_def linked_from_append code_end_append valid_code_def)
  have a2: "linked_from i0 j0 answer2" "code_end i0 j0 answer2 = (ai + sz, bj + sz)"
    "\<forall>c\<in>set answer2. valid_code a b c"
    using a1 bo by (auto simp: answer2_def linked_from_append code_end_append valid_code_def)
  have rest: "sorted_wrt blk_before blocks" "\<forall>m\<in>set blocks. block_ok a b m"
    using Cons.prems(4,5) by simp_all
  have "\<forall>m'\<in>set blocks. blk_before (ai, bj, sz) m'" using Cons.prems(4) m by simp
  then have rest3: "\<forall>m'\<in>set blocks. ai + sz \<le> fst m' \<and> bj + sz \<le> fst (snd m')"
    by (auto simp: blk_before_def)
  have "opcodes_loop i j answer (m # blocks) = opcodes_loop (ai + sz) (bj + sz) answer2 blocks"
    by (simp add: m answer1_def answer2_def Let_def)
  then show ?case using Cons.IH [OF a2 rest rest3] by simp
qed

lemma get_opcodes_valid:
  "linked_from 0 0 (get_opcodes a b) \<and> (\<forall>c\<in>set (get_opcodes a b). valid_code a b c)"
proof -
  obtain ms where ms: "get_matching_blocks a b = ms @ [(length a, length b, 0)]" "block_chain a b ms"
    using get_matching_blocks_chain by blast
  have s: "sorted_wrt blk_before (ms @ [(length a, length b, 0)])"
    using ms(2) by (auto simp: block_chain_def sorted_wrt_append blk_before_def good_block_def)
  have o: "\<forall>m\<in>set (ms @ [(length a, length b, 0)]). block_ok a b m"
    using ms(2) by (auto simp: block_chain_def block_ok_def good_block_def)
  show ?thesis
    unfolding get_opcodes_def ms(1)
    by (rule opcodes_loop_valid [OF _ _ _ s o]) simp_all
qed

text \<open>An empty list of opcodes: both sequences are empty.\<close>

lemma opcodes_loop_length:
  "length answer \<le> length (opcodes_loop i j answer blocks)"
proof (induction blocks arbitrary: i j answer)
  case Nil
  show ?case by simp
next
  case (Cons m blocks)
  obtain ai bj sz where m: "m = (ai, bj, sz)" by (metis prod_cases3)
  define answer2 where "answer2 =
     (let answer1 =
            (if i < ai \<and> j < bj then answer @ [(Replace, i, ai, j, bj)]
             else if i < ai then answer @ [(Delete, i, ai, j, bj)]
             else if j < bj then answer @ [(Insert, i, ai, j, bj)]
             else answer)
      in if sz \<noteq> 0 then answer1 @ [(Equal, ai, ai + sz, bj, bj + sz)] else answer1)"
  have "length answer \<le> length answer2" by (simp add: answer2_def Let_def)
  moreover have "opcodes_loop i j answer (m # blocks) = opcodes_loop (ai + sz) (bj + sz) answer2 blocks"
    by (simp add: m answer2_def Let_def)
  ultimately show ?case using Cons.IH [of answer2 "ai + sz" "bj + sz"] by simp
qed

definition linked :: "opcode list \<Rightarrow> bool" where
  "linked cs \<longleftrightarrow> (case cs of [] \<Rightarrow> True | (t, i1, i2, j1, j2) # _ \<Rightarrow> linked_from i1 j1 cs)"

definition good_group :: "'a list \<Rightarrow> 'a list \<Rightarrow> opcode list \<Rightarrow> bool" where
  "good_group a b g \<longleftrightarrow> g \<noteq> [] \<and> linked g \<and> (\<forall>c\<in>set g. valid_code a b c)"

lemma linked_from_linked: "linked_from i j cs \<Longrightarrow> linked cs"
  by (cases cs) (auto simp: linked_def)

lemma linked_Cons:
  "linked ((t, i1, i2, j1, j2) # cs) \<longleftrightarrow> linked_from i2 j2 cs"
  by (simp add: linked_def)

lemma linked_append_Cons:
  "linked (xs @ (t, i1, i2, j1, j2) # ys) \<longleftrightarrow>
     linked (xs @ [(t, i1, i2, j1, j2)]) \<and> linked_from i2 j2 ys"
proof (cases xs)
  case Nil
  then show ?thesis by (simp add: linked_def)
next
  case (Cons c cs)
  obtain t' a1 a2 b1 b2 where c: "c = (t', a1, a2, b1, b2)" by (metis prod_cases5)
  show ?thesis
    unfolding Cons c by (auto simp: linked_def linked_from_append code_end_append split: prod.splits)
qed

lemma linked_snoc_start:
  "linked (xs @ [(t, i1, i2, j1, j2)]) \<Longrightarrow> linked (xs @ [(t', i1, i2', j1, j2')])"
proof (cases xs)
  case Nil
  then show ?thesis by (simp add: linked_def)
next
  case (Cons c cs)
  obtain u a1 a2 b1 b2 where c: "c = (u, a1, a2, b1, b2)" by (metis prod_cases5)
  assume "linked (xs @ [(t, i1, i2, j1, j2)])"
  then show ?thesis
    unfolding Cons c by (auto simp: linked_def linked_from_append split: prod.splits)
qed

lemma valid_equal_suffix:
  assumes "valid_code a b (Equal, i1, i2, j1, j2)"
  shows "valid_code a b (Equal, max i1 (i2 - n), i2, max j1 (j2 - n), j2)"
proof -
  define d where "d = i2 - i1"
  define d' where "d' = min d n"
  have v: "i1 \<le> i2" "j1 \<le> j2" "i2 \<le> length a" "j2 \<le> length b" "j2 - j1 = d"
    "\<forall>x<d. a ! (i1 + x) = b ! (j1 + x)"
    using assms by (auto simp: valid_code_def d_def)
  have s: "max i1 (i2 - n) = i2 - d'" "max j1 (j2 - n) = j2 - d'"
    using v by (auto simp: d'_def d_def)
  have "\<forall>x<d'. a ! (i2 - d' + x) = b ! (j2 - d' + x)"
  proof (intro allI impI)
    fix x assume x: "x < d'"
    then have "d - d' + x < d" by (auto simp: d'_def)
    then have e: "a ! (i1 + (d - d' + x)) = b ! (j1 + (d - d' + x))" using v(6) by blast
    have "i1 + (d - d' + x) = i2 - d' + x" "j1 + (d - d' + x) = j2 - d' + x"
      using v x by (auto simp: d'_def d_def)
    then show "a ! (i2 - d' + x) = b ! (j2 - d' + x)" using e by metis
  qed
  moreover have "i2 - (i2 - d') = d'" "j2 - (j2 - d') = d'" using v by (auto simp: d'_def d_def)
  ultimately show ?thesis unfolding s using v by (auto simp: valid_code_def)
qed

lemma valid_equal_prefix:
  assumes "valid_code a b (Equal, i1, i2, j1, j2)"
  shows "valid_code a b (Equal, i1, min i2 (i1 + n), j1, min j2 (j1 + n))"
  using assms by (auto simp: valid_code_def min_def)

lemma fix_first_good:
  assumes "codes \<noteq> []" "linked codes" "\<forall>c\<in>set codes. valid_code a b c"
  shows "fix_first n codes \<noteq> [] \<and> linked (fix_first n codes) \<and> (\<forall>c\<in>set (fix_first n codes). valid_code a b c)"
proof -
  obtain c cs where codes: "codes = c # cs" using assms(1) by (cases codes) auto
  obtain t i1 i2 j1 j2 where c: "c = (t, i1, i2, j1, j2)" by (metis prod_cases5)
  show ?thesis
  proof (cases "t = Equal")
    case True
    have "valid_code a b (Equal, max i1 (i2 - n), i2, max j1 (j2 - n), j2)"
      using assms(3) codes c True valid_equal_suffix by fastforce
    then show ?thesis using assms(2,3) True
      by (auto simp: fix_first_def codes c linked_Cons)
  next
    case False
    then show ?thesis using assms by (cases t) (auto simp: fix_first_def codes c)
  qed
qed

lemma fix_last_good:
  assumes "codes \<noteq> []" "linked codes" "\<forall>c\<in>set codes. valid_code a b c"
  shows "fix_last n codes \<noteq> [] \<and> linked (fix_last n codes) \<and> (\<forall>c\<in>set (fix_last n codes). valid_code a b c)"
proof -
  obtain cs c where codes: "codes = cs @ [c]" using assms(1) by (cases codes rule: rev_cases) auto
  obtain t i1 i2 j1 j2 where c: "c = (t, i1, i2, j1, j2)" by (metis prod_cases5)
  have upd: "codes[length codes - 1 := c'] = cs @ [c']" for c'
    by (simp add: codes)
  show ?thesis
  proof (cases "t = Equal")
    case True
    have v: "valid_code a b (Equal, i1, min i2 (i1 + n), j1, min j2 (j1 + n))"
      using assms(3) codes c True valid_equal_prefix by fastforce
    have l: "linked (cs @ [(Equal, i1, min i2 (i1 + n), j1, min j2 (j1 + n))])"
      using assms(2) linked_snoc_start unfolding codes c by blast
    have "fix_last n codes = cs @ [(Equal, i1, min i2 (i1 + n), j1, min j2 (j1 + n))]"
      unfolding fix_last_def using True upd by (simp add: codes c)
    then show ?thesis using v l assms(3) by (auto simp: codes)
  next
    case False
    then have "fix_last n codes = codes" by (cases t) (auto simp: fix_last_def codes c)
    then show ?thesis using assms by simp
  qed
qed

lemma group_loop_good:
  assumes "\<forall>g\<in>set out. good_group a b g" "linked (grp @ codes)" "\<forall>c\<in>set (grp @ codes). valid_code a b c"
  shows "\<forall>g\<in>set (group_loop n grp out codes). good_group a b g"
  using assms
proof (induction codes arbitrary: grp out)
  case Nil
  then show ?case by (auto simp: good_group_def)
next
  case (Cons c codes)
  obtain t i1 i2 j1 j2 where c: "c = (t, i1, i2, j1, j2)" by (metis prod_cases5)
  have lk: "linked (grp @ [(t, i1, i2, j1, j2)])" "linked_from i2 j2 codes"
    using Cons.prems(2) linked_append_Cons unfolding c by blast+
  show ?case
  proof (cases "t = Equal \<and> n + n < i2 - i1")
    case True
    define c1 where "c1 = (t, i1, min i2 (i1 + n), j1, min j2 (j1 + n))"
    define c2 where "c2 = (t, max i1 (i2 - n), i2, max j1 (j2 - n), j2)"
    have vc: "valid_code a b (Equal, i1, i2, j1, j2)" using Cons.prems(3) c True by simp
    have v1: "valid_code a b c1" "valid_code a b c2"
      using valid_equal_prefix [OF vc] valid_equal_suffix [OF vc] True by (simp_all add: c1_def c2_def)
    have g1: "good_group a b (grp @ [c1])"
      using lk(1) linked_snoc_start v1 Cons.prems(3) unfolding c1_def good_group_def by fastforce
    have l2: "linked ([c2] @ codes)" using lk(2) by (simp add: c2_def linked_Cons)
    have o: "\<forall>g\<in>set (out @ [grp @ [c1]]). good_group a b g" using Cons.prems(1) g1 by simp
    have v: "\<forall>c\<in>set ([c2] @ codes). valid_code a b c" using v1 Cons.prems(3) by simp
    have "group_loop n grp out (c # codes) = group_loop n [c2] (out @ [grp @ [c1]]) codes"
      using True by (simp add: c c1_def c2_def)
    then show ?thesis using Cons.IH [OF o l2 v] by simp
  next
    case False
    have "group_loop n grp out (c # codes) = group_loop n (grp @ [c]) out codes"
      using False by (auto simp: c)
    then show ?thesis using Cons.IH [of out "grp @ [c]"] Cons.prems by simp
  qed
qed

lemma get_grouped_opcodes_good:
  "\<forall>g\<in>set (get_grouped_opcodes a b n). good_group a b g"
proof (cases "get_opcodes a b = []")
  case True
  have "fix_last n (fix_first n [(Equal, 0, 1, 0, 1)]) = [(Equal, 1 - n, 1, 1 - n, 1)]"
    by (simp add: fix_first_def fix_last_def)
  moreover have "group_loop n [] [] [(Equal, 1 - n, 1, 1 - n, 1)] = []"
    by simp
  ultimately show ?thesis using True by (simp add: get_grouped_opcodes_def Let_def)
next
  case False
  have v: "linked (get_opcodes a b)" "\<forall>c\<in>set (get_opcodes a b). valid_code a b c"
    using get_opcodes_valid [of a b] linked_from_linked by blast+
  note f = fix_first_good [OF False v, of n]
  have l: "fix_last n (fix_first n (get_opcodes a b)) \<noteq> [] \<and>
      linked (fix_last n (fix_first n (get_opcodes a b))) \<and>
      (\<forall>c\<in>set (fix_last n (fix_first n (get_opcodes a b))). valid_code a b c)"
    using fix_last_good f by blast
  have "\<forall>g\<in>set (group_loop n [] [] (fix_last n (fix_first n (get_opcodes a b)))). good_group a b g"
    by (rule group_loop_good) (use l in simp_all)
  then show ?thesis
    unfolding get_grouped_opcodes_def Let_def using False by simp
qed

subsection \<open>Spans of a group\<close>

lemma slice_append:
  "i \<le> j \<Longrightarrow> j \<le> k \<Longrightarrow> slice xs i j @ slice xs j k = slice xs i k"
proof -
  assume a: "i \<le> j" "j \<le> k"
  have "take ((j - i) + (k - j)) (drop i xs) = take (j - i) (drop i xs) @ take (k - j) (drop (j - i) (drop i xs))"
    by (rule take_add)
  moreover have "(j - i) + (k - j) = k - i" using a by simp
  moreover have "drop (j - i) (drop i xs) = drop j xs" using a by simp
  ultimately show ?thesis by simp
qed

lemma slice_same [simp]: "slice xs i i = []"
  by simp

declare slice.simps [simp del]

definition old_span :: "'a list \<Rightarrow> opcode \<Rightarrow> 'a list" where
  "old_span xs c = (case c of (t, i1, i2, j1, j2) \<Rightarrow> slice xs i1 i2)"

definition new_span :: "'a list \<Rightarrow> opcode \<Rightarrow> 'a list" where
  "new_span ys c = (case c of (t, i1, i2, j1, j2) \<Rightarrow> slice ys j1 j2)"

lemma chain_spans:
  "linked_from i j g \<Longrightarrow> \<forall>c\<in>set g. valid_code a b c \<Longrightarrow>
     concat (map (old_span xs) g) = slice xs i (fst (code_end i j g)) \<and> i \<le> fst (code_end i j g)
   \<and> concat (map (new_span ys) g) = slice ys j (snd (code_end i j g)) \<and> j \<le> snd (code_end i j g)"
proof (induction g arbitrary: i j)
  case Nil
  show ?case by simp
next
  case (Cons c g)
  obtain t i1 i2 j1 j2 where c: "c = (t, i1, i2, j1, j2)" by (cases c) auto
  have l: "i1 = i" "j1 = j" "linked_from i2 j2 g" using Cons.prems(1) c by simp_all
  have v: "i1 \<le> i2" "j1 \<le> j2" using Cons.prems(2) c by (simp_all add: valid_code_def)
  have IH: "concat (map (old_span xs) g) = slice xs i2 (fst (code_end i2 j2 g))" "i2 \<le> fst (code_end i2 j2 g)"
    "concat (map (new_span ys) g) = slice ys j2 (snd (code_end i2 j2 g))" "j2 \<le> snd (code_end i2 j2 g)"
    using Cons.IH [OF l(3)] Cons.prems(2) by simp_all
  have "slice xs i i2 @ slice xs i2 (fst (code_end i2 j2 g)) = slice xs i (fst (code_end i2 j2 g))"
    by (rule slice_append) (use v l IH in simp_all)
  moreover have "slice ys j j2 @ slice ys j2 (snd (code_end i2 j2 g)) = slice ys j (snd (code_end i2 j2 g))"
    by (rule slice_append) (use v l IH in simp_all)
  moreover have "old_span xs c = slice xs i i2" "new_span ys c = slice ys j j2"
    using l by (simp_all add: c old_span_def new_span_def)
  moreover have "code_end i j (c # g) = code_end i2 j2 g" by (simp add: c)
  moreover have "i \<le> fst (code_end i2 j2 g)" "j \<le> snd (code_end i2 j2 g)"
    using IH v l by simp_all
  ultimately show ?case using IH by simp
qed

lemma code_end_last:
  "g \<noteq> [] \<Longrightarrow> code_end i j g = (case last g of (t, i1, i2, j1, j2) \<Rightarrow> (i2, j2))"
proof (induction g arbitrary: i j)
  case Nil
  then show ?case by simp
next
  case (Cons c g)
  obtain t i1 i2 j1 j2 where c: "c = (t, i1, i2, j1, j2)" by (cases c) auto
  show ?case
  proof (cases "g = []")
    case True
    then show ?thesis by (simp add: c)
  next
    case False
    then show ?thesis using Cons.IH [OF False, of i2 j2] by (simp add: c)
  qed
qed

lemma group_spans:
  assumes "good_group a b g" "hd g = (t, f1, f2, f3, f4)" "last g = (t', l1, l2, l3, l4)"
  shows "concat (map (old_span xs) g) = slice xs f1 l2" "f1 \<le> l2" "l2 \<le> length a"
    "concat (map (new_span ys) g) = slice ys f3 l4" "f3 \<le> l4" "l4 \<le> length b"
proof -
  have ne: "g \<noteq> []" and lk: "linked g" and v: "\<forall>c\<in>set g. valid_code a b c"
    using assms(1) by (simp_all add: good_group_def)
  obtain cs where g: "g = (t, f1, f2, f3, f4) # cs" using ne assms(2) by (cases g) auto
  have lf: "linked_from f1 f3 g" using lk unfolding linked_def g by simp
  have ce: "code_end f1 f3 g = (l2, l4)" using code_end_last [OF ne] assms(3) by simp
  note s = chain_spans [OF lf v, of xs ys, unfolded ce]
  show "concat (map (old_span xs) g) = slice xs f1 l2" "f1 \<le> l2"
    "concat (map (new_span ys) g) = slice ys f3 l4" "f3 \<le> l4"
    using s by simp_all
  have "last g \<in> set g" using ne by simp
  then have "valid_code a b (t', l1, l2, l3, l4)" using v assms(3) by metis
  then show "l2 \<le> length a" "l4 \<le> length b" by (simp_all add: valid_code_def)
qed

lemma chomp_Cons: "m \<noteq> CHR 0x0A \<Longrightarrow> chomp (m # x) = m # chomp x"
  by (simp add: chomp_def)

lemma valid_equal_slices:
  assumes "valid_code a b (Equal, i1, i2, j1, j2)"
  shows "slice a i1 i2 = slice b j1 j2"
proof (rule nth_equalityI)
  have v: "i1 \<le> i2" "j1 \<le> j2" "i2 \<le> length a" "j2 \<le> length b" "i2 - i1 = j2 - j1"
    "\<And>x. x < i2 - i1 \<Longrightarrow> a ! (i1 + x) = b ! (j1 + x)"
    using assms by (simp_all add: valid_code_def)
  show len: "length (slice a i1 i2) = length (slice b j1 j2)"
    using v by (simp add: slice.simps)
  fix x assume "x < length (slice a i1 i2)"
  then have x: "x < i2 - i1" using v by (simp add: slice.simps)
  then show "slice a i1 i2 ! x = slice b j1 j2 ! x"
    using v by (simp add: slice.simps)
qed

lemma opcode_lines_old:
  assumes "valid_code a b c"
  shows "concat (map line_old (map chomp (opcode_lines a b c))) = old_span (map chomp a) c"
proof -
  obtain t i1 i2 j1 j2 where c: "c = (t, i1, i2, j1, j2)" by (cases c) auto
  have m: "concat (map (line_old \<circ> (chomp \<circ> (@) ''-'')) zs) = map chomp zs"
    "concat (map (line_old \<circ> (chomp \<circ> (@) '' '')) zs) = map chomp zs"
    "concat (map (line_old \<circ> (chomp \<circ> (@) ''+'')) zs) = []" for zs
    by (induction zs) (simp_all add: chomp_Cons line_old_def)
  have s: "slice (map chomp a) i1 i2 = map chomp (slice a i1 i2)"
    by (simp add: slice.simps take_map drop_map)
  have ins: "t = Insert \<Longrightarrow> i1 = i2" using assms c by (simp add: valid_code_def)
  show ?thesis
    unfolding c old_span_def opcode_lines_def
    using ins by (cases t) (simp_all add: m s)
qed

lemma opcode_lines_new:
  assumes "valid_code a b c"
  shows "concat (map line_new (map chomp (opcode_lines a b c))) = new_span (map chomp b) c"
proof -
  obtain t i1 i2 j1 j2 where c: "c = (t, i1, i2, j1, j2)" by (cases c) auto
  have m: "concat (map (line_new \<circ> (chomp \<circ> (@) ''-'')) zs) = []"
    "concat (map (line_new \<circ> (chomp \<circ> (@) '' '')) zs) = map chomp zs"
    "concat (map (line_new \<circ> (chomp \<circ> (@) ''+'')) zs) = map chomp zs" for zs
    by (induction zs) (simp_all add: chomp_Cons line_new_def)
  have s: "slice (map chomp b) j1 j2 = map chomp (slice b j1 j2)"
    by (simp add: slice.simps take_map drop_map)
  have del: "t = Delete \<Longrightarrow> j1 = j2" using assms c by (simp add: valid_code_def)
  have eq: "t = Equal \<Longrightarrow> slice a i1 i2 = slice b j1 j2"
    using assms c valid_equal_slices by blast
  show ?thesis
    unfolding c new_span_def opcode_lines_def
    using del eq by (cases t) (simp_all add: m s)
qed

lemma opcode_lines_in_body:
  "\<forall>l\<in>set (map chomp (opcode_lines a b c)). in_body l"
proof -
  obtain t i1 i2 j1 j2 where c: "c = (t, i1, i2, j1, j2)" by (cases c) auto
  show ?thesis
    unfolding c opcode_lines_def
    by (cases t) (auto simp: chomp_Cons in_body_def)
qed

definition body_lines :: "string list \<Rightarrow> string list \<Rightarrow> opcode list \<Rightarrow> string list" where
  "body_lines a b g = map chomp (concat (map (opcode_lines a b) g))"

lemma body_lines_in_body: "\<forall>l\<in>set (body_lines a b g). in_body l"
  using opcode_lines_in_body by (fastforce simp: body_lines_def)

lemma body_lines_old:
  "\<forall>c\<in>set g. valid_code a b c \<Longrightarrow>
     concat (map line_old (body_lines a b g)) = concat (map (old_span (map chomp a)) g)"
proof (induction g)
  case Nil
  show ?case by (simp add: body_lines_def)
next
  case (Cons c g)
  then show ?case using opcode_lines_old [of a b c] by (simp add: body_lines_def)
qed

lemma body_lines_new:
  "\<forall>c\<in>set g. valid_code a b c \<Longrightarrow>
     concat (map line_new (body_lines a b g)) = concat (map (new_span (map chomp b)) g)"
proof (induction g)
  case Nil
  show ?case by (simp add: body_lines_def)
next
  case (Cons c g)
  then show ?case using opcode_lines_new [of a b c] by (simp add: body_lines_def)
qed

subsection \<open>Reading the hunks back\<close>

definition range_start :: "nat \<Rightarrow> nat \<Rightarrow> nat" where
  "range_start s e = (if e = s then s else s + 1)"

definition range_len :: "nat \<Rightarrow> nat \<Rightarrow> nat option" where
  "range_len s e = (if e - s = 1 then None else Some (e - s))"

lemma str_of_int_nat: "str_of_int (int n) = str_of_nat n"
  by (simp add: str_of_int_def)

lemma format_range_parts:
  assumes "s \<le> e"
  shows "format_range_unified s e =
     str_of_nat (range_start s e) @ (case range_len s e of None \<Rightarrow> [] | Some l \<Rightarrow> '','' @ str_of_nat l)"
proof -
  obtain d where d: "e = s + d" using assms le_Suc_ex by blast
  have b: "int e - int s = int d" using d by simp
  have c: "str_of_int (int s + 1) = str_of_nat (s + 1)" "str_of_int (int s + 1 - 1) = str_of_nat s"
    "str_of_int (int d) = str_of_nat d" "str_of_int (int s) = str_of_nat s" "str_of_int 0 = str_of_nat 0"
    by (simp_all add: str_of_int_def nat_add_distrib)
  show ?thesis
    unfolding format_range_unified_def Let_def b
    by (cases "d = 0"; cases "d = 1") (simp_all add: c d range_start_def range_len_def)
qed

lemma range_slice:
  assumes "s \<le> e"
  shows "take (case range_len s e of None \<Rightarrow> 1 | Some l \<Rightarrow> l) (drop (range_start s e - Suc 0) xs) = slice xs s e"
  using assms by (auto simp: range_len_def range_start_def slice.simps)

definition group_header :: "opcode list \<Rightarrow> string" where
  "group_header g =
     (case (hd g, last g) of
        ((t, f1, f2, f3, f4), (t', l1, l2, l3, l4)) \<Rightarrow>
          header_line (range_start f1 l2) (range_len f1 l2) (range_start f3 l4) (range_len f3 l4))"

lemma group_lines_header:
  assumes "good_group a b g"
  shows "map chomp (group_lines a b g) = group_header g # body_lines a b g"
proof -
  obtain t f1 f2 f3 f4 where h: "hd g = (t, f1, f2, f3, f4)" by (cases "hd g") auto
  obtain t' l1 l2 l3 l4 where l: "last g = (t', l1, l2, l3, l4)" by (cases "last g") auto
  note s2 = group_spans(2) [OF assms h l] and s5 = group_spans(5) [OF assms h l]
  have c: "chomp (x @ '' @@'') = x @ '' @@''" for x by (simp add: chomp_def)
  have "''@@ -'' @ format_range_unified f1 l2 @ '' +'' @ format_range_unified f3 l4 @ '' @@''
      = header_line (range_start f1 l2) (range_len f1 l2) (range_start f3 l4) (range_len f3 l4)"
    unfolding header_line_def format_range_parts [OF s2] format_range_parts [OF s5] by simp
  moreover have "chomp (header_line p q r s) = header_line p q r s" for p q r s
    unfolding header_line_def using c [of "''@@ -'' @ str_of_nat p @ (case q of None \<Rightarrow> [] | Some b \<Rightarrow> '','' @ str_of_nat b)
     @ '' +'' @ str_of_nat r @ (case s of None \<Rightarrow> [] | Some d \<Rightarrow> '','' @ str_of_nat d)"] by simp
  ultimately show ?thesis
    by (simp add: group_lines_def group_header_def h l body_lines_def)
qed

lemma group_header_not_body: "\<not> in_body (group_header g)"
  using startswith_header_line [of _ _ _ _ "[]"]
  by (auto simp: group_header_def in_body_def split: prod.splits)

definition diff_body :: "string list \<Rightarrow> string list \<Rightarrow> opcode list list \<Rightarrow> string list" where
  "diff_body a b gs = concat (map (\<lambda>g. group_header g # body_lines a b g) gs)"

lemma diff_body_eq:
  "\<forall>g\<in>set gs. good_group a b g \<Longrightarrow>
     map chomp (concat (map (group_lines a b) gs)) = diff_body a b gs"
proof (induction gs)
  case Nil
  show ?case by (simp add: diff_body_def)
next
  case (Cons g gs)
  then show ?case using group_lines_header [of a b g] by (simp add: diff_body_def)
qed

lemma diff_body_head:
  "takeWhile in_body (diff_body a b gs) = [] \<and> dropWhile in_body (diff_body a b gs) = diff_body a b gs"
  by (cases gs) (simp_all add: diff_body_def group_header_not_body)

definition snippets_ok :: "string list \<Rightarrow> string list \<Rightarrow> hunk \<Rightarrow> bool" where
  "snippets_ok A B h \<longleftrightarrow>
     old_snippet h = join [CHR 0x0A] (take (nat (old_len h)) (drop (nat (old_start h) - 1) A))
   \<and> new_snippet h = join [CHR 0x0A] (take (nat (new_len h)) (drop (nat (new_start h) - 1) B))"

text \<open>
  A number below \<open>line_limit\<close> has no more digits than \<^verbatim>\<open>int\<close> accepts.
\<close>

definition line_limit :: nat where
  "line_limit = 10 ^ max_str_digits"

lemma length_str_of_nat_limit:
  assumes "n < line_limit"
  shows "\<not> max_str_digits < length (str_of_nat n)"
proof -
  have "0 < max_str_digits" by (simp add: max_str_digits_def)
  then have "length (str_of_nat n) \<le> max_str_digits"
    using length_str_of_nat assms unfolding line_limit_def by blast
  then show ?thesis by simp
qed

lemma small_below_line_limit: "n < 10 \<Longrightarrow> n < line_limit"
proof -
  assume n: "n < 10"
  have "(10::nat) ^ 1 \<le> 10 ^ max_str_digits"
    by (rule power_increasing) (simp_all add: max_str_digits_def)
  then have "10 \<le> line_limit" by (simp add: line_limit_def)
  then show ?thesis using n by simp
qed

lemma group_parse:
  assumes "good_group a b g"
  shows "\<exists>hk. snippets_ok (map chomp a) (map chomp b) hk
     \<and> parse_lines (group_header g # body_lines a b g @ diff_body a b gs) =
         (if raising_header (group_header g) then Inl ValueError
          else case parse_lines (diff_body a b gs) of
                 Inl e \<Rightarrow> Inl e
               | Inr hs' \<Rightarrow> Inr (hk # hs'))"
    and "length a < line_limit \<Longrightarrow> length b < line_limit \<Longrightarrow> \<not> raising_header (group_header g)"
proof -
  obtain t f1 f2 f3 f4 where h: "hd g = (t, f1, f2, f3, f4)" by (cases "hd g") auto
  obtain t' l1 l2 l3 l4 where l: "last g = (t', l1, l2, l3, l4)" by (cases "last g") auto
  note s1 = group_spans(1) [OF assms h l, of "map chomp a"]
    and s4 = group_spans(4) [OF assms h l, of "map chomp b"]
    and s2 = group_spans(2) [OF assms h l] and s5 = group_spans(5) [OF assms h l]
    and s3 = group_spans(3) [OF assms h l] and s6 = group_spans(6) [OF assms h l]
  have v: "\<forall>c\<in>set g. valid_code a b c" using assms by (simp add: good_group_def)
  have gh: "group_header g = header_line (range_start f1 l2) (range_len f1 l2) (range_start f3 l4) (range_len f3 l4) @ []"
    by (simp add: group_header_def h l)
  have tw: "takeWhile in_body (body_lines a b g @ diff_body a b gs) = body_lines a b g"
    using body_lines_in_body [of a b g] diff_body_head [of a b gs]
    by (simp add: takeWhile_append2)
  have dw: "dropWhile in_body (body_lines a b g @ diff_body a b gs) = diff_body a b gs"
    using body_lines_in_body [of a b g] diff_body_head [of a b gs]
    by (simp add: dropWhile_append2)
  define hk where "hk = \<lparr>old_start = int (range_start f1 l2),
      old_len = (case range_len f1 l2 of None \<Rightarrow> 1 | Some n \<Rightarrow> int n),
      new_start = int (range_start f3 l4),
      new_len = (case range_len f3 l4 of None \<Rightarrow> 1 | Some n \<Rightarrow> int n),
      ops = concat (map line_ops (body_lines a b g)),
      old_snippet = join [CHR 0x0A] (slice (map chomp a) f1 l2),
      new_snippet = join [CHR 0x0A] (slice (map chomp b) f3 l4)\<rparr>"
  have e: "(if (case q of None \<Rightarrow> [] | Some b \<Rightarrow> str_of_nat b) = [] then 1
            else int_of_digits (case q of None \<Rightarrow> [] | Some b \<Rightarrow> str_of_nat b))
         = (case q of None \<Rightarrow> 1 | Some n \<Rightarrow> int n)" for q
    by (cases q) (simp_all add: str_of_nat_nonempty int_of_digits_str_of_nat)
  have sw: "startswith (group_header g) ''@@ ''"
    unfolding gh by (rule startswith_header_line)
  have mh: "match_hunk_header (group_header g) =
      Some (str_of_nat (range_start f1 l2),
            (case range_len f1 l2 of None \<Rightarrow> [] | Some b \<Rightarrow> str_of_nat b),
            str_of_nat (range_start f3 l4),
            (case range_len f3 l4 of None \<Rightarrow> [] | Some d \<Rightarrow> str_of_nat d))"
    unfolding gh by (rule match_header_line)
  have rh: "raising_header (group_header g) \<longleftrightarrow>
      over_limit (str_of_nat (range_start f1 l2))
        (case range_len f1 l2 of None \<Rightarrow> [] | Some b \<Rightarrow> str_of_nat b)
        (str_of_nat (range_start f3 l4))
        (case range_len f3 l4 of None \<Rightarrow> [] | Some d \<Rightarrow> str_of_nat d)"
    by (simp add: raising_header_def mh)
  have p: "parse_lines (group_header g # body_lines a b g @ diff_body a b gs) =
         (if raising_header (group_header g) then Inl ValueError
          else case parse_lines (diff_body a b gs) of
                 Inl e \<Rightarrow> Inl e
               | Inr hs' \<Rightarrow> Inr (hk # hs'))"
    unfolding parse_lines_Cons [of "group_header g"] tw dw mh rh
    by (simp only: sw if_True option.case prod.case e body_lines_old [OF v]
          body_lines_new [OF v] s1 s4 int_of_digits_str_of_nat hk_def)
  have "snippets_ok (map chomp a) (map chomp b) hk"
  proof -
    have "nat (case range_len f1 l2 of None \<Rightarrow> 1 | Some n \<Rightarrow> int n)
        = (case range_len f1 l2 of None \<Rightarrow> 1 | Some l \<Rightarrow> l)"
      "nat (case range_len f3 l4 of None \<Rightarrow> 1 | Some n \<Rightarrow> int n)
        = (case range_len f3 l4 of None \<Rightarrow> 1 | Some l \<Rightarrow> l)"
      by (simp_all split: option.splits)
    then show ?thesis
      unfolding snippets_ok_def hk_def
      by (simp add: range_slice [OF s2] range_slice [OF s5])
  qed
  then show "\<exists>hk. snippets_ok (map chomp a) (map chomp b) hk
     \<and> parse_lines (group_header g # body_lines a b g @ diff_body a b gs) =
         (if raising_header (group_header g) then Inl ValueError
          else case parse_lines (diff_body a b gs) of
                 Inl e \<Rightarrow> Inl e
               | Inr hs' \<Rightarrow> Inr (hk # hs'))"
    using p by blast
  show "\<not> raising_header (group_header g)" if b: "length a < line_limit" "length b < line_limit"
  proof -
    have "range_start f1 l2 \<le> l2" "l2 - f1 \<le> l2" "range_start f3 l4 \<le> l4" "l4 - f3 \<le> l4"
      using s2 s5 by (auto simp: range_start_def)
    then have n: "range_start f1 l2 < line_limit" "l2 - f1 < line_limit"
        "range_start f3 l4 < line_limit" "l4 - f3 < line_limit"
      using s3 s6 b by linarith+
    have "\<not> max_str_digits < length (case range_len f1 l2 of None \<Rightarrow> [] | Some b \<Rightarrow> str_of_nat b)"
      "\<not> max_str_digits < length (case range_len f3 l4 of None \<Rightarrow> [] | Some b \<Rightarrow> str_of_nat b)"
      using length_str_of_nat_limit [OF n(2)] length_str_of_nat_limit [OF n(4)]
      by (simp_all add: range_len_def max_str_digits_def)
    then show ?thesis
      unfolding rh over_limit_def
      using length_str_of_nat_limit [OF n(1)] length_str_of_nat_limit [OF n(3)] by simp
  qed
qed

lemma group_hunk:
  assumes "good_group a b g"
  shows "parse_lines (group_header g # body_lines a b g @ diff_body a b gs) = Inr hs \<Longrightarrow>
     \<exists>h hs'. hs = h # hs' \<and> parse_lines (diff_body a b gs) = Inr hs'
       \<and> snippets_ok (map chomp a) (map chomp b) h"
  using group_parse(1) [OF assms, of gs]
  by (auto split: if_splits sum.splits)

lemma parse_groups:
  "\<forall>g\<in>set gs. good_group a b g \<Longrightarrow> parse_lines (diff_body a b gs) = Inr hs \<Longrightarrow>
     \<forall>h\<in>set hs. snippets_ok (map chomp a) (map chomp b) h"
proof (induction gs arbitrary: hs)
  case Nil
  then show ?case by (simp add: diff_body_def)
next
  case (Cons g gs)
  have d: "diff_body a b (g # gs) = group_header g # body_lines a b g @ diff_body a b gs"
    by (simp add: diff_body_def)
  have gg: "good_group a b g" using Cons.prems(1) by simp
  obtain h hs' where h: "hs = h # hs'" "parse_lines (diff_body a b gs) = Inr hs'"
      "snippets_ok (map chomp a) (map chomp b) h"
    using group_hunk [OF gg, of gs hs] Cons.prems(2) unfolding d by blast
  have "\<forall>h\<in>set hs'. snippets_ok (map chomp a) (map chomp b) h"
    using Cons.IH [OF _ h(2)] Cons.prems(1) by simp
  then show ?case using h by simp
qed

lemma diff_body_returns:
  assumes "\<forall>g\<in>set gs. good_group a b g" "length a < line_limit" "length b < line_limit"
  shows "\<exists>hs. parse_lines (diff_body a b gs) = Inr hs"
proof (rule parse_lines_returns, rule ballI)
  fix l assume "l \<in> set (diff_body a b gs)"
  then obtain g where g: "g \<in> set gs" "l = group_header g \<or> l \<in> set (body_lines a b g)"
    by (auto simp: diff_body_def)
  from g(2) show "\<not> raising_header l"
  proof
    assume "l = group_header g"
    then show ?thesis using group_parse(2) [OF _ assms(2,3)] assms(1) g(1) by blast
  next
    assume "l \<in> set (body_lines a b g)"
    then show ?thesis using body_lines_in_body raising_header_not_body by blast
  qed
qed

lemma splitlines_clean_lines: "\<forall>l\<in>set (splitlines s). clean l"
proof (induction s rule: splitlines.induct)
  case 1
  show ?case by simp
next
  case (2 c cs)
  show ?case
  proof (cases "is_linebreak c")
    case True
    then show ?thesis using 2(1) by (simp add: clean_def)
  next
    case False
    then show ?thesis using 2(2)
      by (cases "splitlines cs") (simp_all add: clean_def)
  qed
qed

lemma strip_clean: "clean p \<Longrightarrow> clean (strip p)"
  unfolding clean_def strip_def
  by (metis set_dropWhileD set_rev)

definition terminated :: "string list \<Rightarrow> bool" where
  "terminated xs \<longleftrightarrow> (\<forall>x\<in>set xs. \<exists>p. clean p \<and> x = p @ [CHR 0x0A])"

lemma clean_not_endswith: "clean p \<Longrightarrow> \<not> endswith p [CHR 0x0A]"
proof
  assume c: "clean p" and e: "endswith p [CHR 0x0A]"
  then have "p \<noteq> []" by (auto simp: endswith_def)
  moreover have "CHR 0x0A \<in> set (drop (length p - 1) p)" using e by (simp add: endswith_def)
  then have "CHR 0x0A \<in> set p" by (rule in_set_dropD)
  ultimately show False using c is_linebreak_LF by (auto simp: clean_def)
qed

lemma to_lines_terminated: "terminated (to_lines s sw)"
  unfolding terminated_def to_lines_def
  using splitlines_clean_lines [of s] strip_clean clean_not_endswith by auto

lemma set_slice: "x \<in> set (slice xs i j) \<Longrightarrow> x \<in> set xs"
  unfolding slice.simps by (meson in_set_dropD in_set_takeD)

lemma marked_good:
  assumes "clean p" "\<not> is_linebreak m"
  shows "good_line (m # p @ [CHR 0x0A])"
proof -
  have "clean (m # p)" using assms by (simp add: clean_def)
  then show ?thesis unfolding good_line_def by (metis append_Cons)
qed

lemma opcode_lines_good:
  assumes "terminated a" "terminated b"
  shows "\<forall>l\<in>set (opcode_lines a b c). good_line l"
proof
  fix l assume l: "l \<in> set (opcode_lines a b c)"
  obtain t i1 i2 j1 j2 where c: "c = (t, i1, i2, j1, j2)" by (cases c) auto
  have "\<exists>m x. l = m # x \<and> (m = CHR '' '' \<or> m = CHR ''-'' \<or> m = CHR ''+'') \<and> (x \<in> set a \<or> x \<in> set b)"
    using l unfolding c opcode_lines_def
    by (auto split: if_splits dest: set_slice)
  then obtain m x where m: "l = m # x" "m = CHR '' '' \<or> m = CHR ''-'' \<or> m = CHR ''+''"
      "x \<in> set a \<or> x \<in> set b" by blast
  then obtain p where p: "clean p" "x = p @ [CHR 0x0A]"
    using assms unfolding terminated_def by blast
  have "\<not> is_linebreak m" using m(2) marker_chars by auto
  then show "good_line l" unfolding m(1) p(2) using marked_good [OF p(1)] by simp
qed

lemma str_of_nat_clean: "clean (str_of_nat n)"
  using str_of_nat_digits digit_not_linebreak unfolding clean_def by blast

lemma header_line_clean: "clean (header_line p q r s)"
  unfolding header_line_def
  by (cases q; cases s)
     (simp_all add: clean_append clean_Cons clean_Nil str_of_nat_clean marker_chars)

lemma group_header_good: "good_line (group_header g)"
proof -
  have "clean (group_header g)"
    by (simp add: group_header_def header_line_clean split: prod.splits)
  then show ?thesis unfolding good_line_def by blast
qed

lemma group_lines_raw:
  assumes "good_group a b g"
  shows "group_lines a b g = group_header g # concat (map (opcode_lines a b) g)"
proof -
  obtain t f1 f2 f3 f4 where h: "hd g = (t, f1, f2, f3, f4)" by (cases "hd g") auto
  obtain t' l1 l2 l3 l4 where l: "last g = (t', l1, l2, l3, l4)" by (cases "last g") auto
  note s2 = group_spans(2) [OF assms h l] and s5 = group_spans(5) [OF assms h l]
  have "''@@ -'' @ format_range_unified f1 l2 @ '' +'' @ format_range_unified f3 l4 @ '' @@''
      = header_line (range_start f1 l2) (range_len f1 l2) (range_start f3 l4) (range_len f3 l4)"
    unfolding header_line_def format_range_parts [OF s2] format_range_parts [OF s5] by simp
  then show ?thesis
    by (simp add: group_lines_def group_header_def h l)
qed

lemma group_lines_good:
  assumes "good_group a b g" "terminated a" "terminated b"
  shows "\<forall>l\<in>set (group_lines a b g). good_line l"
  unfolding group_lines_raw [OF assms(1)]
  using group_header_good [of g] opcode_lines_good [OF assms(2,3)] by auto

lemma diff_text_lines:
  assumes "clean lnm" "clean rnm" "terminated a" "terminated b"
    and "get_grouped_opcodes a b n \<noteq> []"
  shows "parse_unified_diff (unified_diff_text a b lnm rnm n) =
     parse_lines (diff_body a b (get_grouped_opcodes a b n))"
proof -
  define gs where "gs = get_grouped_opcodes a b n"
  have gg: "\<forall>g\<in>set gs. good_group a b g"
    unfolding gs_def by (rule get_grouped_opcodes_good)
  define U where "U = (''--- '' @ lnm) # (''+++ '' @ rnm) # concat (map (group_lines a b) gs)"
  have u: "unified_diff a b lnm rnm n = U"
    using assms(5) unfolding unified_diff_def U_def gs_def by (simp split: list.splits)
  have "join [CHR 0x0A] U \<noteq> []" unfolding U_def by simp
  then have t: "unified_diff_text a b lnm rnm n = join [CHR 0x0A] U"
    by (simp add: unified_diff_text_def u Let_def)
  have c1: "clean (''--- '' @ lnm)" "clean (''+++ '' @ rnm)"
    using assms(1,2) by (simp_all add: clean_Cons marker_chars)
  have good: "\<forall>x\<in>set U. good_line x"
    unfolding U_def using c1 gg group_lines_good [OF _ assms(3,4)]
    by (auto simp: good_line_def)
  have m: "map chomp U = (''--- '' @ lnm) # (''+++ '' @ rnm) # diff_body a b gs"
    unfolding U_def using chomp_clean [OF c1(1)] chomp_clean [OF c1(2)] diff_body_eq [OF gg]
    by simp
  have "parse_unified_diff (join [CHR 0x0A] U) = parse_lines (map chomp U)"
    unfolding parse_joined [OF good] using parse_lines_filter [of "map chomp U"] by simp
  also have "\<dots> = parse_lines (diff_body a b gs)"
    unfolding m by (simp add: parse_lines_Cons)
  finally show ?thesis unfolding t gs_def .
qed

lemma parse_diff_text:
  assumes "clean lnm" "clean rnm" "terminated a" "terminated b"
    and "parse_unified_diff (unified_diff_text a b lnm rnm n) = Inr hs"
  shows "\<forall>h\<in>set hs. snippets_ok (map chomp a) (map chomp b) h"
proof (cases "get_grouped_opcodes a b n = []")
  case True
  then have "unified_diff_text a b lnm rnm n = ''(no differences)''"
    by (simp add: unified_diff_text_def unified_diff_def)
  then show ?thesis using assms(5) parse_no_differences by simp
next
  case False
  have "parse_lines (diff_body a b (get_grouped_opcodes a b n)) = Inr hs"
    using diff_text_lines [OF assms(1-4) False] assms(5) by simp
  then show ?thesis using parse_groups [OF get_grouped_opcodes_good] by blast
qed

lemma diff_text_parses:
  assumes "clean lnm" "clean rnm" "terminated a" "terminated b"
    and "length a < line_limit" "length b < line_limit"
  shows "\<exists>hs. parse_unified_diff (unified_diff_text a b lnm rnm n) = Inr hs"
proof (cases "get_grouped_opcodes a b n = []")
  case True
  then have "unified_diff_text a b lnm rnm n = ''(no differences)''"
    by (simp add: unified_diff_text_def unified_diff_def)
  then show ?thesis using parse_no_differences by simp
next
  case False
  show ?thesis
    unfolding diff_text_lines [OF assms(1-4) False]
    by (rule diff_body_returns [OF get_grouped_opcodes_good assms(5,6)])
qed

lemma make_change_record_built:
  assumes "clean lnm" "clean rnm"
    and "length (to_lines l sw) < line_limit" "length (to_lines r sw) < line_limit"
  shows "\<exists>rec. make_change_record l r lnm rnm n sw stamp uu = Inr rec"
  using diff_text_parses [OF assms(1,2) to_lines_terminated to_lines_terminated assms(3,4), of n]
  unfolding make_change_record_eq by auto

text \<open>
  Claim C3, for names without a line boundary.  When neither name contains a character at
  which \<^verbatim>\<open>str.splitlines\<close> cuts, in each hunk of a record that \<^verbatim>\<open>make_change_record\<close>
  built \<^verbatim>\<open>old_snippet\<close> is the span of \<^verbatim>\<open>old_len\<close> lines of the normalized left lines
  that starts at line \<^verbatim>\<open>old_start\<close> (counted from 1), each line without its final newline
  and the lines joined by newlines; \<^verbatim>\<open>new_snippet\<close> is the same span of the right lines.
  The record is built whenever both texts have fewer than \<open>line_limit\<close> lines, that is
  \<open>10 ^ 4300\<close>, so that no line number in a header has more digits than \<^verbatim>\<open>int\<close> accepts
  (a Python string has fewer than \<open>2 ^ 63\<close> characters).  The context count is a natural number.  A name with
  a line boundary puts extra lines into the diff text, and such a line can be read as a
  hunk header: the second theorem below gives a record whose first hunk does not come
  from the texts.
\<close>

theorem hunk_snippets_reproduce_spans:
  assumes "\<forall>c\<in>set lnm. \<not> is_linebreak c" "\<forall>c\<in>set rnm. \<not> is_linebreak c"
  shows "(length (to_lines l sw) < line_limit \<and> length (to_lines r sw) < line_limit \<longrightarrow>
           (\<exists>rec. make_change_record l r lnm rnm n sw stamp uu = Inr rec))
     \<and> (\<forall>rec. make_change_record l r lnm rnm n sw stamp uu = Inr rec \<longrightarrow>
          (\<forall>h\<in>set (hunks rec).
             old_snippet h = join [CHR 0x0A]
               (map chomp (take (nat (old_len h)) (drop (nat (old_start h) - 1) (to_lines l sw))))
           \<and> new_snippet h = join [CHR 0x0A]
               (map chomp (take (nat (new_len h)) (drop (nat (new_start h) - 1) (to_lines r sw))))))"
proof -
  have c: "clean lnm" "clean rnm" using assms by (simp_all add: clean_def)
  have 1: "\<exists>rec. make_change_record l r lnm rnm n sw stamp uu = Inr rec"
    if "length (to_lines l sw) < line_limit" "length (to_lines r sw) < line_limit"
    using make_change_record_built [OF c that] .
  have 2: "\<forall>h\<in>set (hunks rec).
             old_snippet h = join [CHR 0x0A]
               (map chomp (take (nat (old_len h)) (drop (nat (old_start h) - 1) (to_lines l sw))))
           \<and> new_snippet h = join [CHR 0x0A]
               (map chomp (take (nat (new_len h)) (drop (nat (new_start h) - 1) (to_lines r sw))))"
    if rec: "make_change_record l r lnm rnm n sw stamp uu = Inr rec" for rec
  proof -
    have hs: "parse_unified_diff (unified_diff_text (to_lines l sw) (to_lines r sw) lnm rnm n)
        = Inr (hunks rec)"
      using rec unfolding make_change_record_eq by (auto split: sum.splits)
    have "\<forall>h\<in>set (hunks rec). snippets_ok (map chomp (to_lines l sw)) (map chomp (to_lines r sw)) h"
      by (rule parse_diff_text [OF c to_lines_terminated to_lines_terminated hs])
    then show ?thesis by (simp add: snippets_ok_def take_map drop_map)
  qed
  show ?thesis using 1 2 by blast
qed

definition span_left :: string where
  "span_left = ''a'' @ [CHR 0x0A] @ ''b'' @ [CHR 0x0A] @ ''c'' @ [CHR 0x0A] @ ''c'' @ [CHR 0x0A]"

definition span_right :: string where
  "span_right = ''a'' @ [CHR 0x0A] @ ''x'' @ [CHR 0x0A] @ ''c'' @ [CHR 0x0A] @ ''c'' @ [CHR 0x0A]"

definition span_hunk :: hunk where
  "span_hunk =
     \<lparr>old_start = 1, old_len = 3, new_start = 1, new_len = 3,
      ops = [\<lparr>op = ''ctx'', optext = ''a''\<rparr>, \<lparr>op = ''del'', optext = ''b''\<rparr>,
             \<lparr>op = ''add'', optext = ''x''\<rparr>, \<lparr>op = ''ctx'', optext = ''c''\<rparr>],
      old_snippet = ''a'' @ [CHR 0x0A] @ ''b'' @ [CHR 0x0A] @ ''c'',
      new_snippet = ''a'' @ [CHR 0x0A] @ ''x'' @ [CHR 0x0A] @ ''c''\<rparr>"

definition span_record :: change_record where
  "span_record =
     \<lparr>record_id = ''t_012345'',
      source = \<lparr>left_name = ''l'', right_name = ''r''\<rparr>,
      stats = \<lparr>lines_left = 4, lines_right = 4, char_similarity = Fin (7 / 8),
               line_similarity = Fin (3 / 4), token_jaccard = Fin (1 / 2),
               percent_different_estimate = Fin (25 / 2)\<rparr>,
      unified_diff_field = ''--- l'' @ [CHR 0x0A] @ ''+++ r'' @ [CHR 0x0A] @ ''@@ -1,3 +1,3 @@'' @ [CHR 0x0A]
         @ '' a'' @ [CHR 0x0A, CHR 0x0A] @ ''-b'' @ [CHR 0x0A, CHR 0x0A] @ ''+x'' @ [CHR 0x0A, CHR 0x0A]
         @ '' c'' @ [CHR 0x0A],
      hunks = [span_hunk],
      heuristics = \<lparr>risk_flags = [], numeric_changes = [], removed_keywords = [],
                     added_keywords = []\<rparr>\<rparr>"

lemma span_example:
  "make_change_record span_left span_right ''l'' ''r'' 1 False ''t'' ''0123456789'' = Inr span_record"
  by code_simp

lemma span_lines:
  "to_lines span_left False = [''a'' @ [CHR 0x0A], ''b'' @ [CHR 0x0A], ''c'' @ [CHR 0x0A], ''c'' @ [CHR 0x0A]]"
  "to_lines span_right False = [''a'' @ [CHR 0x0A], ''x'' @ [CHR 0x0A], ''c'' @ [CHR 0x0A], ''c'' @ [CHR 0x0A]]"
  by code_simp+

theorem hunk_snippets_reproduce_spans_witness:
  "make_change_record span_left span_right ''l'' ''r'' 1 False ''t'' ''0123456789'' = Inr span_record
   \<and> length (to_lines span_left False) = 4 \<and> length (to_lines span_right False) = 4
   \<and> hunks span_record = [span_hunk]
   \<and> old_start span_hunk = 1 \<and> old_len span_hunk = 3 \<and> new_start span_hunk = 1 \<and> new_len span_hunk = 3
   \<and> old_snippet span_hunk = join [CHR 0x0A]
        (map chomp (take (nat (old_len span_hunk)) (drop (nat (old_start span_hunk) - 1) (to_lines span_left False))))
   \<and> new_snippet span_hunk = join [CHR 0x0A]
        (map chomp (take (nat (new_len span_hunk)) (drop (nat (new_start span_hunk) - 1) (to_lines span_right False))))
   \<and> old_snippet span_hunk = ''a'' @ [CHR 0x0A] @ ''b'' @ [CHR 0x0A] @ ''c''
   \<and> new_snippet span_hunk = ''a'' @ [CHR 0x0A] @ ''x'' @ [CHR 0x0A] @ ''c''"
proof -
  have n: "length (to_lines span_left False) = 4" "length (to_lines span_right False) = 4"
    by (simp_all add: span_lines)
  have "(4::nat) < line_limit" by (rule small_below_line_limit) simp
  then show ?thesis
    using hunk_snippets_reproduce_spans [where lnm = "''l''" and rnm = "''r''" and l = span_left
        and r = span_right and n = 1 and sw = False and stamp = "''t''" and uu = "''0123456789''"]
      span_example n
    by (simp add: is_linebreak_def cp_def span_record_def) (simp add: span_hunk_def)
qed

definition bad_name :: string where
  "bad_name = ''a'' @ [CHR 0x0A] @ ''@@ -9 +9 @@''"

definition bad_hunk :: hunk where
  "bad_hunk =
     \<lparr>old_start = 9, old_len = 1, new_start = 9, new_len = 1,
      ops = [\<lparr>op = ''add'', optext = ''++ r''\<rparr>],
      old_snippet = [], new_snippet = ''++ r''\<rparr>"

definition bad_record :: change_record where
  "bad_record =
     \<lparr>record_id = ''t_012345'',
      source = \<lparr>left_name = bad_name, right_name = ''r''\<rparr>,
      stats = \<lparr>lines_left = 1, lines_right = 1, char_similarity = Fin 0,
               line_similarity = Fin 0, token_jaccard = Fin 0,
               percent_different_estimate = Fin 100\<rparr>,
      unified_diff_field = ''--- '' @ bad_name @ [CHR 0x0A] @ ''+++ r'' @ [CHR 0x0A] @ ''@@ -1 +1 @@'' @ [CHR 0x0A]
         @ ''-x'' @ [CHR 0x0A, CHR 0x0A] @ ''+y'' @ [CHR 0x0A],
      hunks = [bad_hunk,
               \<lparr>old_start = 1, old_len = 1, new_start = 1, new_len = 1,
                ops = [\<lparr>op = ''del'', optext = ''x''\<rparr>, \<lparr>op = ''add'', optext = ''y''\<rparr>],
                old_snippet = ''x'', new_snippet = ''y''\<rparr>],
      heuristics = \<lparr>risk_flags = [], numeric_changes = [], removed_keywords = [],
                     added_keywords = []\<rparr>\<rparr>"

lemma bad_example:
  "make_change_record ''x'' ''y'' bad_name ''r'' 3 False ''t'' ''0123456789'' = Inr bad_record"
  by code_simp

lemma bad_lines: "to_lines ''y'' False = [''y'' @ [CHR 0x0A]]"
  by code_simp

theorem spurious_hunk_from_line_break_in_name:
  "make_change_record ''x'' ''y'' bad_name ''r'' 3 False ''t'' ''0123456789'' = Inr bad_record
   \<and> hd (hunks bad_record) = bad_hunk
   \<and> new_start bad_hunk = 9 \<and> new_len bad_hunk = 1
   \<and> new_snippet bad_hunk = ''++ r''
   \<and> to_lines ''y'' False = [''y'' @ [CHR 0x0A]]
   \<and> join [CHR 0x0A]
        (map chomp (take (nat (new_len bad_hunk)) (drop (nat (new_start bad_hunk) - 1) (to_lines ''y'' False)))) = []
   \<and> new_snippet bad_hunk \<noteq> join [CHR 0x0A]
        (map chomp (take (nat (new_len bad_hunk)) (drop (nat (new_start bad_hunk) - 1) (to_lines ''y'' False))))
   \<and> bad_name = ''a'' @ [CHR 0x0A] @ ''@@ -9 +9 @@''"
  using bad_example bad_lines
  by (simp add: bad_record_def bad_hunk_def bad_name_def)

section \<open>The percentage and the stored similarity\<close>

text \<open>
  Claim C2 as stated fails.  The two texts below have 160 characters each and share the
  first one only, so the ratio is 2/320 = 0.00625 as a float, which lies just above the
  tie: the stored similarity is 0.0063, the stored percentage is 99.38, and the percentage
  computed again from the stored similarity is 99.37.
\<close>

theorem percent_not_from_stored_similarity:
  "\<not> isl (make_change_record text_A text_B ''left.txt'' ''right.txt'' 3 False [] [])
   \<and> char_similarity (stats (projr (make_change_record text_A text_B ''left.txt'' ''right.txt'' 3 False [] [])))
       = Fin (226981421219473 / 36028797018963968)
   \<and> percent_different_estimate
        (stats (projr (make_change_record text_A text_B ''left.txt'' ''right.txt'' 3 False [] [])))
       = Fin (874155724547031 / 8796093022208)
   \<and> py_round (pf_times_100 (pf_sub_from_one (Fin (226981421219473 / 36028797018963968)))) 2
       = Fin (874067763616809 / 8796093022208)
   \<and> percent_different_estimate
        (stats (projr (make_change_record text_A text_B ''left.txt'' ''right.txt'' 3 False [] [])))
       \<noteq> py_round (pf_times_100 (pf_sub_from_one (char_similarity
            (stats (projr (make_change_record text_A text_B ''left.txt'' ''right.txt'' 3 False [] [])))))) 2"
proof -
  have r: "ratio text_A text_B = calculate_ratio 1 320"
    unfolding text_A_def text_B_def by (subst one_common_head_ratio) auto
  have c: "calculate_ratio 1 320 = Fin (3602879701896397 / 576460752303423488)"
    by code_simp
  have c4: "py_round (Fin (3602879701896397 / 576460752303423488)) 4 = Fin (226981421219473 / 36028797018963968)"
    by code_simp
  have p: "py_round (pf_times_100 (pf_sub_from_one (Fin (3602879701896397 / 576460752303423488)))) 2
      = Fin (874155724547031 / 8796093022208)"
    by code_simp
  have q: "py_round (pf_times_100 (pf_sub_from_one (Fin (226981421219473 / 36028797018963968)))) 2
       = Fin (874067763616809 / 8796093022208)"
    by code_simp
  have cl: "clean text_A" "clean text_B" "clean ''left.txt''" "clean ''right.txt''"
    by (simp_all add: clean_def text_A_def text_B_def is_linebreak_def cp_def)
  have "splitlines text_A = [text_A]" "splitlines text_B = [text_B]"
    by (rule splitlines_clean [OF cl(1)], simp add: text_A_def)
       (rule splitlines_clean [OF cl(2)], simp add: text_B_def)
  then have "length (to_lines text_A False) < line_limit" "length (to_lines text_B False) < line_limit"
    using small_below_line_limit [of 1] by (simp_all add: length_to_lines)
  then obtain rec where rec1: "make_change_record text_A text_B ''left.txt'' ''right.txt'' 3 False [] [] = Inr rec"
    using make_change_record_built [OF cl(3,4)] by blast
  note st = record_stats [OF rec1]
  have rec: "make_change_record text_A text_B ''left.txt'' ''right.txt'' 3 False [] [] = Inr rec"
    "percent_different_estimate (stats rec) = py_round (pf_times_100 (pf_sub_from_one (ratio text_A text_B))) 2"
    "char_similarity (stats rec) = py_round (ratio text_A text_B) 4"
    using rec1 st by simp_all
  have cs: "char_similarity (stats rec) = Fin (226981421219473 / 36028797018963968)"
    using rec(3) by (simp only: r c c4)
  have pd: "percent_different_estimate (stats rec) = Fin (874155724547031 / 8796093022208)"
    using rec(2) by (simp only: r c p)
  show ?thesis
    unfolding rec(1)
    by (simp add: cs pd q del: py_round.simps pf_sub_from_one.simps pf_times_100.simps)
qed

end
